theory Spec2Isabelle
  imports Main "HOL-Library.Extended_Nat" "HOL-Library.Sublist"
begin

section \<open>The regularity diff engine of docs/app.js\<close>

text \<open>
  A JavaScript string is a sequence of UTF-16 code units. The aligner, the selector and the
  colorizer never look inside a code unit, so they are modelled over lists of an arbitrary
  type of units. \<open>String.prototype.toLowerCase\<close> belongs to the runtime, not to the
  repository: its action on one code unit is the parameter \<open>lc\<close> of every function that
  lower-cases. Where the source lower-cases two single characters to compare them, only the
  equality of the results matters and \<open>lc\<close> may have any result type. Where it lower-cases
  a whole string (\<open>markStemLetters\<close>, the variant generator), the result is \<open>map lc\<close> of
  the string: that is what \<open>toLowerCase\<close> does on text without surrogate pairs and without
  the few characters whose lower case has another length, which covers French.
\<close>

subsection \<open>editMask: the tables\<close>

datatype error = TypeError

datatype edit_op = Eq | Rep | Ins | Del

record tables =
  dp :: "nat list list"
  bt :: "edit_op option list list"

text \<open>\<open>t[i][j] = v\<close> on an array of arrays; the loops below only write inside the
  allocated \<open>(m + 1) \<times> (n + 1)\<close> tables.\<close>

definition put :: "'v list list \<Rightarrow> nat \<Rightarrow> nat \<Rightarrow> 'v \<Rightarrow> 'v list list" where
  "put t i j v = t[i := (t ! i)[j := v]]"

definition initTables :: "nat \<Rightarrow> nat \<Rightarrow> tables" where
  "initTables m n =
     \<lparr>dp = replicate (m + 1) (replicate (n + 1) 0),
      bt = replicate (m + 1) (replicate (n + 1) None)\<rparr>"

definition firstColumn :: "nat \<Rightarrow> tables \<Rightarrow> tables" where
  "firstColumn i t = \<lparr>dp = put (dp t) i 0 i, bt = put (bt t) i 0 (Some Del)\<rparr>"

definition firstRow :: "nat \<Rightarrow> tables \<Rightarrow> tables" where
  "firstRow j t = \<lparr>dp = put (dp t) 0 j j, bt = put (bt t) 0 j (Some Ins)\<rparr>"

text \<open>The body of the inner loop, lines 103 to 118.\<close>

definition cell :: "'a list \<Rightarrow> 'a list \<Rightarrow> nat \<Rightarrow> nat \<Rightarrow> tables \<Rightarrow> tables" where
  "cell a b i j t =
     (let cost = (if b ! (i - 1) = a ! (j - 1) then 0 else 1 :: nat);
          del = dp t ! (i - 1) ! j + 1;
          ins = dp t ! i ! (j - 1) + 1;
          rep = dp t ! (i - 1) ! (j - 1) + cost;
          best0 = rep;
          op0 = (if cost = 0 then Eq else Rep);
          best1 = (if ins < best0 then ins else best0);
          op1 = (if ins < best0 then Ins else op0);
          best2 = (if del < best1 then del else best1);
          op2 = (if del < best1 then Del else op1)
      in \<lparr>dp = put (dp t) i j best2, bt = put (bt t) i j (Some op2)\<rparr>)"

definition fillTables :: "'a list \<Rightarrow> 'a list \<Rightarrow> tables" where
  "fillTables a b =
     (let n = length a;
          m = length b;
          t0 = initTables m n;
          t1 = fold firstColumn [1..<Suc m] t0;
          t2 = fold firstRow [1..<Suc n] t1
      in fold (\<lambda>i. fold (cell a b i) [1..<Suc n]) [1..<Suc m] t2)"

subsection \<open>editMask: the backtrace\<close>

text \<open>
  \<open>mask[k] = true\<close>: a negative \<open>k\<close> sets a property and no element; an index beyond
  the end would grow the array, its holes reading as \<open>undefined\<close> (falsy).
\<close>

definition setTrue :: "bool list \<Rightarrow> int \<Rightarrow> bool list" where
  "setTrue msk k =
     (if k < 0 then msk
      else if nat k < length msk then msk[nat k := True]
      else msk @ replicate (nat k - length msk) False @ [True])"

text \<open>
  \<open>bt[i][j]\<close> with the indices the loop has reached: \<open>bt[i]\<close> out of range is
  \<open>undefined\<close> and indexing it throws; \<open>bt[i][j]\<close> out of range is \<open>undefined\<close>, which
  like \<open>null\<close> takes the final \<open>else break\<close>.
\<close>

definition readOp :: "edit_op option list list \<Rightarrow> int \<Rightarrow> int \<Rightarrow> error + edit_op option" where
  "readOp t i j =
     (if i < 0 \<or> int (length t) \<le> i then Inl TypeError
      else if j < 0 \<or> int (length (t ! nat i)) \<le> j then Inr None
      else Inr (t ! nat i ! nat j))"

function backtrace :: "edit_op option list list \<Rightarrow> int \<Rightarrow> int \<Rightarrow> bool list \<Rightarrow> error + bool list" where
  "backtrace t i j msk =
     (if i > 0 \<or> j > 0 then
        (case readOp t i j of
           Inl e \<Rightarrow> Inl e
         | Inr None \<Rightarrow> Inr msk
         | Inr (Some Eq) \<Rightarrow> backtrace t (i - 1) (j - 1) msk
         | Inr (Some Rep) \<Rightarrow> backtrace t (i - 1) (j - 1) (setTrue msk (j - 1))
         | Inr (Some Ins) \<Rightarrow> backtrace t i (j - 1) (setTrue msk (j - 1))
         | Inr (Some Del) \<Rightarrow> backtrace t (i - 1) j msk)
      else Inr msk)"
  by pat_completeness auto
termination
  by (relation "measure (\<lambda>(t, i, j, msk). nat (i + j + 2))")
     (auto simp: readOp_def split: if_splits)

declare backtrace.simps [simp del]

record editResult =
  score :: nat
  mask :: "bool list"

definition editMask :: "'a list \<Rightarrow> 'a list \<Rightarrow> error + editResult" where
  "editMask actual expected =
     (let a = actual;
          b = expected;
          n = length a;
          m = length b;
          t = fillTables a b
      in case backtrace (bt t) (int m) (int n) (replicate n False) of
           Inl e \<Rightarrow> Inl e
         | Inr msk \<Rightarrow> Inr \<lparr>score = dp t ! m ! n, mask = msk\<rparr>)"


subsection \<open>bestExpectedMask\<close>

text \<open>
  \<open>bestScore\<close> starts at \<open>Infinity\<close>. The last argument of the loop counts the variants
  it has passed to \<open>editMask\<close>; the source has no such counter, it is carried along to say
  where the loop stops.
\<close>

fun bestLoop :: "'a list \<Rightarrow> 'a list list \<Rightarrow> bool list option \<Rightarrow> enat \<Rightarrow> nat
    \<Rightarrow> error + (bool list option \<times> nat)" where
  "bestLoop actual [] best bestScore k = Inr (best, k)"
| "bestLoop actual (expected # rest) best bestScore k =
     (case editMask actual expected of
        Inl e \<Rightarrow> Inl e
      | Inr r \<Rightarrow>
          if enat (score r) < bestScore
          then (if score r = 0 then Inr (Some (mask r), Suc k)
                else bestLoop actual rest (Some (mask r)) (enat (score r)) (Suc k))
          else bestLoop actual rest best bestScore (Suc k))"

definition bestExpectedMask :: "'a list \<Rightarrow> 'a list list \<Rightarrow> error + bool list option" where
  "bestExpectedMask actual expectedVariants =
     (if expectedVariants = [] then Inr None
      else case bestLoop actual expectedVariants None \<infinity> 0 of
             Inl e \<Rightarrow> Inl e
           | Inr (best, k) \<Rightarrow> Inr best)"

subsection \<open>applyBlackUnionRules, markStemLetters, mergeSharedPrefix, colorizeForm\<close>

text \<open>The inner loop of \<open>applyBlackUnionRules\<close>: the leading run on which \<open>shared\<close> and
  \<open>form\<close> agree after lower-casing, in the characters of \<open>shared\<close>.\<close>

fun commonRun :: "('a \<Rightarrow> 'b) \<Rightarrow> 'a list \<Rightarrow> 'a list \<Rightarrow> 'a list" where
  "commonRun lc (x # xs) (y # ys) = (if lc x = lc y then x # commonRun lc xs ys else [])"
| "commonRun lc xs ys = []"

fun unionLoop :: "('a \<Rightarrow> 'b) \<Rightarrow> 'a list \<Rightarrow> 'a list list \<Rightarrow> 'a list" where
  "unionLoop lc shared [] = shared"
| "unionLoop lc shared (form # rest) =
     (let tmp = commonRun lc shared form
      in if tmp = [] then tmp else unionLoop lc tmp rest)"

definition applyBlackUnionRules :: "('a \<Rightarrow> 'b) \<Rightarrow> 'a list list \<Rightarrow> 'a list" where
  "applyBlackUnionRules lc forms =
     (case forms of [] \<Rightarrow> [] | first # rest \<Rightarrow> unionLoop lc first rest)"

text \<open>\<open>s.indexOf(ch, from)\<close> for a one-unit \<open>ch\<close>; \<open>None\<close> is \<open>-1\<close>.\<close>

definition indexOf :: "'a list \<Rightarrow> 'a \<Rightarrow> nat \<Rightarrow> nat option" where
  "indexOf s ch from =
     (case filter (\<lambda>i. s ! i = ch) [from..<length s] of [] \<Rightarrow> None | i # _ \<Rightarrow> Some i)"

text \<open>
  The loop of \<open>markStemLetters\<close> over the lower-cased stem, one code unit at a time. The
  source lower-cases \<open>form\<close> and \<open>stem\<close> as whole strings and takes the stem by code point
  (\<open>for (const ch of ...)\<close>): a surrogate pair of the stem is one \<open>ch\<close> of two units, and
  only the index of its first unit is marked. The loop below is the source on stems and
  forms without surrogate pairs and with unit-wise lower case (\<open>plainText\<close>, defined with
  the strings of the rule tables).
\<close>

fun markLoop :: "'a list \<Rightarrow> 'a list \<Rightarrow> int \<Rightarrow> bool list \<Rightarrow> bool list" where
  "markLoop lower [] lastIdx isBlack = isBlack"
| "markLoop lower (ch # rest) lastIdx isBlack =
     (case indexOf lower ch (nat (lastIdx + 1)) of
        None \<Rightarrow> isBlack
      | Some idx \<Rightarrow> markLoop lower rest (int idx) (setTrue isBlack (int idx)))"

definition markStemLetters :: "('a \<Rightarrow> 'a) \<Rightarrow> 'a list \<Rightarrow> 'a list \<Rightarrow> bool list" where
  "markStemLetters lc form stem =
     markLoop (map lc form) (map lc stem) (- 1) (replicate (length form) False)"

function mergeLoop :: "('a \<Rightarrow> 'b) \<Rightarrow> 'a list \<Rightarrow> 'a list \<Rightarrow> nat \<Rightarrow> bool list \<Rightarrow> bool list" where
  "mergeLoop lc form sharedPrefix i isBlack =
     (if i < length sharedPrefix then
        (if i < length form \<and> lc (form ! i) = lc (sharedPrefix ! i)
         then mergeLoop lc form sharedPrefix (i + 1) (setTrue isBlack (int i))
         else isBlack)
      else isBlack)"
  by pat_completeness auto
termination
  by (relation "measure (\<lambda>(lc, form, sharedPrefix, i, isBlack). length sharedPrefix - i)") auto

declare mergeLoop.simps [simp del]

text \<open>\<open>mergeSharedPrefix\<close> updates \<open>isBlack\<close> in place; here it returns the updated array.\<close>

definition mergeSharedPrefix :: "('a \<Rightarrow> 'b) \<Rightarrow> bool list \<Rightarrow> 'a list \<Rightarrow> 'a list \<Rightarrow> bool list" where
  "mergeSharedPrefix lc isBlack form sharedPrefix = mergeLoop lc form sharedPrefix 0 isBlack"

datatype mode = Black | Normal | Hi

text \<open>
  The HTML that \<open>colorizeForm\<close> builds, piece by piece: \<open>Open m\<close> is the opening tag
  written by \<open>open(m)\<close> (its class name comes from \<open>classes\<close>), \<open>Close\<close> is
  \<open></span>\<close>, and \<open>Text c\<close> is \<open>escapeHtml(c)\<close>.
\<close>

datatype 'a token = Open mode | Close | Text 'a

text \<open>An array element read in a condition: out of range it is \<open>undefined\<close>, falsy.\<close>

definition truthyAt :: "bool list \<Rightarrow> nat \<Rightarrow> bool" where
  "truthyAt xs i = (i < length xs \<and> xs ! i)"

definition nextMode :: "bool list \<Rightarrow> bool list option \<Rightarrow> nat \<Rightarrow> mode" where
  "nextMode isBlack irregularMask i =
     (if truthyAt isBlack i then Black
      else if (case irregularMask of None \<Rightarrow> False | Some m \<Rightarrow> truthyAt m i) then Hi
      else Normal)"

definition colorStep :: "'a list \<Rightarrow> bool list \<Rightarrow> bool list option \<Rightarrow> nat
    \<Rightarrow> 'a token list \<times> mode option \<Rightarrow> 'a token list \<times> mode option" where
  "colorStep form isBlack irregularMask i st =
     (let out = fst st;
          mode = snd st;
          next = nextMode isBlack irregularMask i;
          out1 = (if mode \<noteq> Some next
                  then (if mode \<noteq> None then out @ [Close] else out) @ [Open next]
                  else out)
      in (out1 @ [Text (form ! i)], Some next))"

definition colorizeForm :: "('a \<Rightarrow> 'a) \<Rightarrow> 'a list \<Rightarrow> 'a list \<Rightarrow> 'a list \<Rightarrow> bool list option
    \<Rightarrow> 'a token list" where
  "colorizeForm lc form sharedPrefix stem irregularMask =
     (let isBlack = mergeSharedPrefix lc (markStemLetters lc form stem) form sharedPrefix;
          st = fold (colorStep form isBlack irregularMask) [0..<length form] ([], None)
      in if snd st \<noteq> None then fst st @ [Close] else fst st)"


subsection \<open>Strings of the rule tables\<close>

text \<open>
  The variant generator compares with literal characters, so its strings are lists of
  UTF-16 code units, each given by its number. \<open>str\<close> turns an ASCII literal into code
  units; the accented letters of the source are single units of the Latin-1 block.
\<close>

type_synonym jschar = nat
type_synonym jsstring = "jschar list"

definition str :: "string \<Rightarrow> jsstring" where
  "str s = map of_char s"

abbreviation a_circ :: jschar where "a_circ \<equiv> 0xE2"
abbreviation c_cedilla :: jschar where "c_cedilla \<equiv> 0xE7"
abbreviation e_grave :: jschar where "e_grave \<equiv> 0xE8"
abbreviation e_acute :: jschar where "e_acute \<equiv> 0xE9"
abbreviation i_circ :: jschar where "i_circ \<equiv> 0xEE"

text \<open>\<open>toLowerCase\<close> on the code units of Basic Latin and Latin-1 Supplement, for the
  closed examples.\<close>

definition lowerLatin1 :: "jschar \<Rightarrow> jschar" where
  "lowerLatin1 c =
     (if (0x41 \<le> c \<and> c \<le> 0x5A) \<or> (0xC0 \<le> c \<and> c \<le> 0xDE \<and> c \<noteq> 0xD7) then c + 0x20 else c)"

text \<open>
  Plain text: no surrogate code unit, so that a \<open>for ... of\<close> loop over the string takes
  one code unit at a time, and neither of the two characters whose lower case has another
  length (U+0130) or depends on the neighbouring characters (U+03A3), so that
  \<open>toLowerCase\<close> on the whole string is \<open>toLowerCase\<close> on each code unit. On plain text
  \<open>markStemLetters\<close> and the variant generator below are exactly the source.
\<close>

definition plainText :: "jsstring \<Rightarrow> bool" where
  "plainText s = (\<forall>u\<in>set s. \<not> (0xD800 \<le> u \<and> u \<le> 0xDFFF) \<and> u \<noteq> 0x130 \<and> u \<noteq> 0x3A3)"

definition endsWith :: "'a list \<Rightarrow> 'a list \<Rightarrow> bool" where
  "endsWith s e = (length e \<le> length s \<and> drop (length s - length e) s = e)"

text \<open>\<open>s.slice(0, -k)\<close>\<close>

definition chop :: "nat \<Rightarrow> 'a list \<Rightarrow> 'a list" where
  "chop k s = take (length s - k) s"

text \<open>\<open>xs[i]\<close> on an array literal; \<open>None\<close> is \<open>undefined\<close>.\<close>

definition nthU :: "'a list \<Rightarrow> nat \<Rightarrow> 'a option" where
  "nthU xs i = (if i < length xs then Some (xs ! i) else None)"

text \<open>\<open>s + e\<close> where \<open>e\<close> may be \<open>undefined\<close>.\<close>

definition concatU :: "jsstring \<Rightarrow> jsstring option \<Rightarrow> jsstring" where
  "concatU s e = s @ (case e of None \<Rightarrow> str ''undefined'' | Some t \<Rightarrow> t)"

text \<open>\<open>[...new Set(xs)]\<close>: the first occurrence of each element, in order.\<close>

definition dedupe :: "'a list \<Rightarrow> 'a list" where
  "dedupe xs = fold (\<lambda>x seen. if x \<in> set seen then seen else seen @ [x]) xs []"

text \<open>\<open>s.lastIndexOf(ch)\<close> for a one-unit \<open>ch\<close>; \<open>None\<close> is \<open>-1\<close>.\<close>

definition lastIndexOf :: "'a list \<Rightarrow> 'a \<Rightarrow> nat option" where
  "lastIndexOf s ch =
     (case filter (\<lambda>i. s ! i = ch) (rev [0..<length s]) of [] \<Rightarrow> None | i # _ \<Rightarrow> Some i)"

subsection \<open>Rule tables\<close>

datatype group = Er | Ir | Re | Other

text \<open>The tense key is a string in the source; \<open>unknown_tense\<close> stands for every string
  that is none of the four keys.\<close>

datatype tenseKey = present | imparfait | passe_simple | futur | unknown_tense

definition verbGroup :: "jsstring \<Rightarrow> group" where
  "verbGroup infinitive =
     (if endsWith infinitive (str ''er'') then Er
      else if endsWith infinitive (str ''ir'') then Ir
      else if endsWith infinitive (str ''re'') then Re
      else Other)"

definition linguisticStem :: "jsstring \<Rightarrow> jsstring" where
  "linguisticStem infinitive =
     (if endsWith infinitive (str ''er'') then chop (length (str ''er'')) infinitive
      else if endsWith infinitive (str ''ir'') then chop (length (str ''ir'')) infinitive
      else if endsWith infinitive (str ''re'') then chop (length (str ''re'')) infinitive
      else infinitive)"

definition regularEnding :: "jsstring \<Rightarrow> tenseKey \<Rightarrow> nat \<Rightarrow> jsstring option" where
  "regularEnding infinitive tenseKey personIndex =
     (let group = verbGroup infinitive in
      case tenseKey of
        present \<Rightarrow>
          (if group = Er then
             nthU [str ''e'', str ''es'', str ''e'', str ''ons'', str ''ez'', str ''ent''] personIndex
           else if group = Ir then
             nthU [str ''is'', str ''is'', str ''it'', str ''issons'', str ''issez'', str ''issent'']
               personIndex
           else if group = Re then
             nthU [str ''s'', str ''s'', [], str ''ons'', str ''ez'', str ''ent''] personIndex
           else Some [])
      | imparfait \<Rightarrow>
          nthU [str ''ais'', str ''ais'', str ''ait'', str ''ions'', str ''iez'', str ''aient'']
            personIndex
      | futur \<Rightarrow>
          nthU [str ''ai'', str ''as'', str ''a'', str ''ons'', str ''ez'', str ''ont''] personIndex
      | passe_simple \<Rightarrow>
          (if group = Er then
             nthU [str ''ai'', str ''as'', str ''a'', a_circ # str ''mes'', a_circ # str ''tes'',
                   e_grave # str ''rent''] personIndex
           else if group = Ir \<or> group = Re then
             nthU [str ''is'', str ''is'', str ''it'', i_circ # str ''mes'', i_circ # str ''tes'',
                   str ''irent''] personIndex
           else Some [])
      | unknown_tense \<Rightarrow> Some [])"

text \<open>\<open>stems\<close> is the value of \<open>stems.imparfaitStem\<close>, \<open>None\<close> when \<open>stems\<close> or the field
  is missing; an empty string is falsy.\<close>

definition expectedBaseForm :: "jsstring \<Rightarrow> tenseKey \<Rightarrow> nat \<Rightarrow> jsstring option \<Rightarrow> jsstring" where
  "expectedBaseForm infinitive tenseKey personIndex stems =
     (let group = verbGroup infinitive;
          stem = (if group = Other then infinitive else chop 2 infinitive)
      in case tenseKey of
           present \<Rightarrow> concatU stem (regularEnding infinitive tenseKey personIndex)
         | imparfait \<Rightarrow>
             (let ending = regularEnding infinitive tenseKey personIndex;
                  base = (case stems of
                            Some s \<Rightarrow> if s \<noteq> [] then s
                                      else if group = Ir then stem @ str ''iss'' else stem
                          | None \<Rightarrow> if group = Ir then stem @ str ''iss'' else stem)
              in concatU base ending)
         | futur \<Rightarrow>
             (let ending = regularEnding infinitive tenseKey personIndex;
                  base = (if group = Re then chop 1 infinitive else infinitive)
              in concatU base ending)
         | passe_simple \<Rightarrow> concatU stem (regularEnding infinitive tenseKey personIndex)
         | unknown_tense \<Rightarrow> [])"

subsection \<open>Spelling-change rules\<close>

text \<open>\<open>form.replace(re, rep)\<close> for the global regular expression \<open>re\<close> that matches
  the letter \<open>x\<close> before \<open>a\<close>, \<open>a\<close> circumflex or \<open>o\<close>: every such \<open>x\<close> becomes
  \<open>rep\<close>; the lookahead consumes nothing.\<close>

fun replaceBefore :: "jschar \<Rightarrow> jsstring \<Rightarrow> jsstring \<Rightarrow> jsstring" where
  "replaceBefore x rep (c # d # r) =
     (if c = x \<and> d \<in> set (str ''a'' @ [a_circ] @ str ''o'') then rep else [c])
       @ replaceBefore x rep (d # r)"
| "replaceBefore x rep s = s"

definition cerGerVariants :: "(jschar \<Rightarrow> jschar) \<Rightarrow> jsstring \<Rightarrow> jsstring \<Rightarrow> jsstring option
    \<Rightarrow> jsstring list" where
  "cerGerVariants lc form infinitive ending =
     (let variants0 = [form];
          lower = map lc infinitive;
          first = (case ending of Some (c # r) \<Rightarrow> [c] | _ \<Rightarrow> []);
          variants1 =
            (if endsWith lower (str ''cer'') \<and> first \<in> set [str ''a'', [a_circ], str ''o'']
             then variants0 @ [replaceBefore (of_char CHR ''c'') [c_cedilla] form]
             else variants0);
          variants2 =
            (if endsWith lower (str ''ger'') \<and> first \<in> set [str ''a'', [a_circ], str ''o'']
             then variants1 @ [replaceBefore (of_char CHR ''g'') (str ''ge'') form]
             else variants1)
      in dedupe variants2)"

definition replaceAt :: "jsstring \<Rightarrow> nat \<Rightarrow> jsstring \<Rightarrow> jsstring" where
  "replaceAt s idx rep = take idx s @ rep @ drop (idx + 1) s"

definition yToIVariants :: "jsstring \<Rightarrow> bool \<Rightarrow> jsstring list" where
  "yToIVariants stem optional =
     (if of_char CHR ''y'' \<notin> set stem then [stem]
      else case lastIndexOf stem (of_char CHR ''y'') of
             None \<Rightarrow> [stem]
           | Some idx \<Rightarrow>
               (let changed = replaceAt stem idx (str ''i'')
                in if optional then [stem, changed] else [changed]))"

definition silentE :: "nat \<Rightarrow> bool" where
  "silentE personIndex = (personIndex \<in> set [0, 1, 2, 5])"

definition yerStemVariants :: "(jschar \<Rightarrow> jschar) \<Rightarrow> jsstring \<Rightarrow> jsstring \<Rightarrow> tenseKey \<Rightarrow> nat
    \<Rightarrow> jsstring list" where
  "yerStemVariants lc stem infinitive tenseKey personIndex =
     (if tenseKey \<noteq> present then [stem]
      else if \<not> silentE personIndex then [stem]
      else let lower = map lc infinitive
           in if endsWith lower (str ''oyer'') \<or> endsWith lower (str ''uyer'')
              then yToIVariants stem False
              else if endsWith lower (str ''ayer'') then yToIVariants stem True
              else [stem])"

definition eToEGrave :: "jsstring \<Rightarrow> jsstring" where
  "eToEGrave stem =
     (case lastIndexOf stem (of_char CHR ''e'') of
        None \<Rightarrow> stem
      | Some idx \<Rightarrow> replaceAt stem idx [e_grave])"

definition eAcuteToEGrave :: "jsstring \<Rightarrow> jsstring" where
  "eAcuteToEGrave stem =
     (case lastIndexOf stem e_acute of
        None \<Rightarrow> stem
      | Some idx \<Rightarrow> replaceAt stem idx [e_grave])"

text \<open>The regular expression \<open>[^aeiouy]*er$\<close> matched at the start of a string, and
  \<open>/x[^aeiouy]*er$/.test(s)\<close>, which tries every position of \<open>s\<close> for the \<open>x\<close>.\<close>

fun consEr :: "jsstring \<Rightarrow> bool" where
  "consEr [] = False"
| "consEr (c # r) = (c # r = str ''er'' \<or> (c \<notin> set (str ''aeiouy'') \<and> consEr r))"

fun testConsEr :: "jschar \<Rightarrow> jsstring \<Rightarrow> bool" where
  "testConsEr x [] = False"
| "testConsEr x (c # r) = ((c = x \<and> consEr r) \<or> testConsEr x r)"

definition eerStemVariants :: "(jschar \<Rightarrow> jschar) \<Rightarrow> jsstring \<Rightarrow> jsstring \<Rightarrow> tenseKey \<Rightarrow> nat
    \<Rightarrow> jsstring list" where
  "eerStemVariants lc stem infinitive tenseKey personIndex =
     (if tenseKey \<noteq> present then [stem]
      else if \<not> silentE personIndex then [stem]
      else let lower = map lc infinitive;
               variants0 = [stem];
               variants1 =
                 (if testConsEr e_acute lower then variants0 @ [eAcuteToEGrave stem]
                  else if testConsEr (of_char CHR ''e'') lower then variants0 @ [eToEGrave stem]
                  else variants0)
           in dedupe variants1)"

definition elerEterStemVariants :: "(jschar \<Rightarrow> jschar) \<Rightarrow> jsstring \<Rightarrow> jsstring \<Rightarrow> tenseKey \<Rightarrow> nat
    \<Rightarrow> jsstring list" where
  "elerEterStemVariants lc stem infinitive tenseKey personIndex =
     (if tenseKey \<noteq> present then [stem]
      else if \<not> silentE personIndex then [stem]
      else let lower = map lc infinitive
           in if \<not> (endsWith lower (str ''eler'') \<or> endsWith lower (str ''eter'')) then [stem]
              else let variants0 = [stem, eToEGrave stem];
                       variants1 =
                         (if endsWith lower (str ''eler'') \<and> endsWith stem (str ''el'')
                          then (let doubled = chop 1 stem @ str ''ll''
                                in variants0 @ [doubled, eToEGrave doubled])
                          else variants0);
                       variants2 =
                         (if endsWith lower (str ''eter'') \<and> endsWith stem (str ''et'')
                          then (let doubled = chop 1 stem @ str ''tt''
                                in variants1 @ [doubled, eToEGrave doubled])
                          else variants1)
                   in dedupe variants2)"

subsection \<open>expectedRegularVariants\<close>

definition expectedRegularVariants :: "(jschar \<Rightarrow> jschar) \<Rightarrow> jsstring \<Rightarrow> tenseKey \<Rightarrow> nat
    \<Rightarrow> jsstring option \<Rightarrow> jsstring list" where
  "expectedRegularVariants lc infinitive tenseKey personIndex stems =
     (let group = verbGroup infinitive;
          base = expectedBaseForm infinitive tenseKey personIndex stems
      in if base = [] then []
         else
           let ending = regularEnding infinitive tenseKey personIndex;
               variants0 = concat (map (\<lambda>f. cerGerVariants lc f infinitive ending) [base]);
               variants1 =
                 (if tenseKey = present \<and> group \<noteq> Other then
                    (let stem = chop 2 infinitive;
                         endg = regularEnding infinitive present personIndex;
                         expanded =
                           concat (map (\<lambda>st1.
                             concat (map (\<lambda>st2.
                               map (\<lambda>st3. concatU st3 endg)
                                 (elerEterStemVariants lc st2 infinitive tenseKey personIndex))
                               (eerStemVariants lc st1 infinitive tenseKey personIndex)))
                             (yerStemVariants lc stem infinitive tenseKey personIndex))
                     in variants0 @ expanded)
                  else variants0)
           in filter (\<lambda>v. v \<noteq> []) (dedupe variants1))"

subsection \<open>buildTenseCell\<close>

fun collect :: "(error + 'b) list \<Rightarrow> error + 'b list" where
  "collect [] = Inr []"
| "collect (x # xs) =
     (case x of
        Inl e \<Rightarrow> Inl e
      | Inr v \<Rightarrow> (case collect xs of Inl e \<Rightarrow> Inl e | Inr vs \<Rightarrow> Inr (v # vs)))"

text \<open>
  The colouring done by \<open>buildTenseCell\<close>: \<open>infinitive\<close> is \<open>v.w\<close>, \<open>words\<close> the forms of the
  cell, \<open>nous\<close> the fourth present form (or the empty string), \<open>tk\<close> the tense key after
  \<open>tenseMap\<close>. The result lists the coloured form of each of the six rows; the cell of
  fewer than six forms is returned empty. The markup around the coloured forms (pronouns,
  IPA, audio links) is left out.
\<close>

definition buildTenseCell :: "(jschar \<Rightarrow> jschar) \<Rightarrow> jsstring \<Rightarrow> tenseKey \<Rightarrow> jsstring
    \<Rightarrow> jsstring list \<Rightarrow> error + jschar token list list" where
  "buildTenseCell lc infinitive tk nous words =
     (if length words < 6 then Inr []
      else
        let shared = applyBlackUnionRules lc words;
            stem = linguisticStem infinitive;
            stems = (if endsWith nous (str ''ons'') then Some (chop 3 nous) else None)
        in collect (map (\<lambda>i.
             let form = words ! i;
                 expectedVariants = expectedRegularVariants lc infinitive tk i stems
             in case bestExpectedMask form expectedVariants of
                  Inl e \<Rightarrow> Inl e
                | Inr irregularMask \<Rightarrow> Inr (colorizeForm lc form shared stem irregularMask))
             [0..<6]))"


section \<open>What the aligner is compared with\<close>

text \<open>
  The Levenshtein distance with unit costs, on the two strings read from their ends:
  \<open>xs\<close> is the expected string reversed, \<open>ys\<close> the attested string reversed.
\<close>

fun levr :: "'a list \<Rightarrow> 'a list \<Rightarrow> nat" where
  "levr [] ys = length ys"
| "levr (x # xs) [] = Suc (length xs)"
| "levr (x # xs) (y # ys) =
     min (levr xs ys + (if x = y then 0 else 1))
         (min (levr (x # xs) ys + 1) (levr xs (y # ys) + 1))"

text \<open>
  One optimal edit path from the ends of both strings to their starts. Where several
  steps keep the path optimal, the substitution or match is taken first, then the
  insertion (a character of the attested string only), then the deletion (a character of
  the expected string only).
\<close>

fun steps :: "'a list \<Rightarrow> 'a list \<Rightarrow> edit_op list" where
  "steps [] [] = []"
| "steps [] (y # ys) = Ins # steps [] ys"
| "steps (x # xs) [] = Del # steps xs []"
| "steps (x # xs) (y # ys) =
     (if levr xs ys + (if x = y then 0 else 1) = levr (x # xs) (y # ys)
      then (if x = y then Eq else Rep) # steps xs ys
      else if levr (x # xs) ys + 1 = levr (x # xs) (y # ys)
      then Ins # steps (x # xs) ys
      else Del # steps xs (y # ys))"

text \<open>
  The mask of a path: deletions have no character of the attested string and give no
  entry; every other step gives the entry of the character it consumes, true for a
  substitution or an insertion and false for a match. The path runs backwards, so the
  entries are reversed.
\<close>

definition stepsMask :: "edit_op list \<Rightarrow> bool list" where
  "stepsMask ops = rev (map (\<lambda>x. x = Rep \<or> x = Ins) (filter (\<lambda>x. x \<noteq> Del) ops))"


text \<open>The tables have \<open>m + 1\<close> rows of \<open>n + 1\<close> entries.\<close>

definition dims :: "nat \<Rightarrow> nat \<Rightarrow> 'v list list \<Rightarrow> bool" where
  "dims m n t = (length t = Suc m \<and> (\<forall>i\<le>m. length (t ! i) = Suc n))"

definition opAt :: "'a list \<Rightarrow> 'a list \<Rightarrow> nat \<Rightarrow> nat \<Rightarrow> edit_op option" where
  "opAt a b i j = (case steps (rev (take i b)) (rev (take j a)) of [] \<Rightarrow> None | x # _ \<Rightarrow> Some x)"

definition final :: "'a list \<Rightarrow> 'a list \<Rightarrow> tables \<Rightarrow> nat \<Rightarrow> nat \<Rightarrow> bool" where
  "final a b t i j = (dp t ! i ! j = levr (rev (take i b)) (rev (take j a)) \<and> bt t ! i ! j = opAt a b i j)"

definition inv :: "'a list \<Rightarrow> 'a list \<Rightarrow> tables \<Rightarrow> nat \<Rightarrow> nat \<Rightarrow> bool" where
  "inv a b t k l = (dims (length b) (length a) (dp t) \<and> dims (length b) (length a) (bt t) \<and>
     (\<forall>i j. i \<le> length b \<and> j \<le> length a \<and> (i < k \<or> (i = k \<and> j \<le> l) \<or> j = 0) \<longrightarrow> final a b t i j))"


section \<open>What the colorizer is compared with\<close>

text \<open>
  The greedy scan of the stem over the form: each stem letter takes the first position, at
  \<open>start\<close> or later, that holds it, and the next letter starts after that position; the
  scan ends at the first letter that finds no position. The result lists the positions
  taken, in scan order.
\<close>

fun stemMatches :: "'a list \<Rightarrow> 'a list \<Rightarrow> nat \<Rightarrow> nat list" where
  "stemMatches lower [] start = []"
| "stemMatches lower (ch # rest) start =
     (case indexOf lower ch start of
        None \<Rightarrow> []
      | Some idx \<Rightarrow> idx # stemMatches lower rest (Suc idx))"


text \<open>The length of the contiguous run, from index 0, on which the form and the shared
  prefix agree after lower-casing.\<close>

definition commonPrefixLen :: "('a \<Rightarrow> 'b) \<Rightarrow> 'a list \<Rightarrow> 'a list \<Rightarrow> nat" where
  "commonPrefixLen lc form sharedPrefix =
     length (takeWhile (\<lambda>p. lc (fst p) = lc (snd p)) (zip form sharedPrefix))"

text \<open>The class of the character at index \<open>i\<close>: stem (\<open>Black\<close>) when the greedy scan of the
  linguistic stem or the shared-prefix run covers it, whatever the deviation mask says;
  otherwise irregular (\<open>Hi\<close>) when the deviation mask flags it, and \<open>Normal\<close> if not.\<close>

definition classOf :: "('a \<Rightarrow> 'a) \<Rightarrow> 'a list \<Rightarrow> 'a list \<Rightarrow> 'a list \<Rightarrow> bool list option
    \<Rightarrow> nat \<Rightarrow> mode" where
  "classOf lc form sharedPrefix stem irregularMask i =
     (if i \<in> set (stemMatches (map lc form) (map lc stem) 0)
         \<or> i < commonPrefixLen lc form sharedPrefix
      then Black
      else if (case irregularMask of None \<Rightarrow> False | Some m \<Rightarrow> i < length m \<and> m ! i) then Hi
      else Normal)"

text \<open>Reading the output back: every character with the mode of the span it stands in
  (\<open>None\<close> outside every span), and the span that is open after a piece of output.\<close>

fun decode :: "mode option \<Rightarrow> 'a token list \<Rightarrow> (mode option \<times> 'a) list" where
  "decode cur [] = []"
| "decode cur (Open m # ts) = decode (Some m) ts"
| "decode cur (Close # ts) = decode None ts"
| "decode cur (Text c # ts) = (cur, c) # decode cur ts"

fun openSpan :: "mode option \<Rightarrow> 'a token list \<Rightarrow> mode option" where
  "openSpan cur [] = cur"
| "openSpan cur (Open m # ts) = openSpan (Some m) ts"
| "openSpan cur (Close # ts) = openSpan None ts"
| "openSpan cur (Text c # ts) = openSpan cur ts"

declare levr.simps(3) [simp del] steps.simps(4) [simp del]

section \<open>The tables hold the distance and the preferred step\<close>

lemma cell_choice:
  fixes x y :: 'a and xs ys :: "'a list"
  defines "cost \<equiv> (if x = y then 0 else 1 :: nat)"
  defines "del \<equiv> levr xs (y # ys) + 1"
  defines "ins \<equiv> levr (x # xs) ys + 1"
  defines "rep \<equiv> levr xs ys + cost"
  shows "(if del < (if ins < rep then ins else rep) then del else (if ins < rep then ins else rep))
           = levr (x # xs) (y # ys)"
    and "Some (if del < (if ins < rep then ins else rep) then Del
          else (if ins < rep then Ins else (if cost = 0 then Eq else Rep)))
           = (case steps (x # xs) (y # ys) of [] \<Rightarrow> None | z # _ \<Rightarrow> Some z)"
  unfolding cost_def del_def ins_def rep_def
  by (auto simp: min_def levr.simps(3) steps.simps(4))

lemma dims_put: "dims m n t \<Longrightarrow> dims m n (put t i j v)"
  unfolding dims_def put_def
proof (intro conjI allI impI)
  assume h: "length t = Suc m \<and> (\<forall>i\<le>m. length (t ! i) = Suc n)"
  show "length (t[i := (t ! i)[j := v]]) = Suc m" using h by simp
  fix k assume "k \<le> m"
  then show "length (t[i := (t ! i)[j := v]] ! k) = Suc n"
    using h by (cases "k = i") (simp_all add: less_Suc_eq_le)
qed

lemma put_nth: "dims m n t \<Longrightarrow> i \<le> m \<Longrightarrow> j \<le> n \<Longrightarrow> i' \<le> m \<Longrightarrow>
  put t i j v ! i' ! j' = (if i' = i \<and> j' = j then v else t ! i' ! j')"
  unfolding dims_def put_def
  by (cases "i' = i"; cases "j' = j") (simp_all add: less_Suc_eq_le)

lemma dims_replicate: "dims m n (replicate (Suc m) (replicate (Suc n) v))"
  unfolding dims_def by (simp add: less_Suc_eq_le del: replicate.simps)

lemma nth_replicate2: "i \<le> m \<Longrightarrow> j \<le> n \<Longrightarrow> replicate (Suc m) (replicate (Suc n) v) ! i ! j = v"
  by (simp add: less_Suc_eq_le del: replicate.simps)

lemma firstColumn_loop:
  "k \<le> m \<Longrightarrow> (let t = fold firstColumn [1..<Suc k] (initTables m n) in
     dims m n (dp t) \<and> dims m n (bt t) \<and>
     (\<forall>i\<le>m. \<forall>j\<le>n. dp t ! i ! j = (if j = 0 \<and> i \<le> k then i else 0) \<and>
        bt t ! i ! j = (if j = 0 \<and> 1 \<le> i \<and> i \<le> k then Some Del else None)))"
proof (induction k)
  case 0
  then show ?case by (simp add: initTables_def dims_replicate nth_replicate2 del: replicate.simps)
next
  case (Suc k)
  then show ?case
    by (auto simp: Let_def firstColumn_def dims_put put_nth)
qed

lemma firstRow_loop:
  assumes "dims m n (dp t0)" "dims m n (bt t0)"
  shows "l \<le> n \<Longrightarrow> (let t = fold firstRow [1..<Suc l] t0 in
     dims m n (dp t) \<and> dims m n (bt t) \<and>
     (\<forall>i\<le>m. \<forall>j\<le>n. dp t ! i ! j = (if i = 0 \<and> 1 \<le> j \<and> j \<le> l then j else dp t0 ! i ! j) \<and>
        bt t ! i ! j = (if i = 0 \<and> 1 \<le> j \<and> j \<le> l then Some Ins else bt t0 ! i ! j)))"
proof (induction l)
  case 0
  then show ?case using assms by auto
next
  case (Suc l)
  then show ?case
    by (auto simp: Let_def firstRow_def dims_put put_nth)
qed


lemma levr_Nil2: "levr xs [] = length xs"
  by (cases xs) simp_all

lemma opAt_row0: "j \<le> length a \<Longrightarrow> opAt a b 0 j = (if j = 0 then None else Some Ins)"
proof (cases j)
  case 0 then show ?thesis by (simp add: opAt_def)
next
  case (Suc j')
  assume "j \<le> length a"
  then have "rev (take j a) = a ! j' # rev (take j' a)"
    using Suc by (simp add: take_Suc_conv_app_nth)
  then show ?thesis using Suc by (simp add: opAt_def)
qed

lemma opAt_col0: "i \<le> length b \<Longrightarrow> opAt a b i 0 = (if i = 0 then None else Some Del)"
proof (cases i)
  case 0 then show ?thesis by (simp add: opAt_def)
next
  case (Suc i')
  assume "i \<le> length b"
  then have "rev (take i b) = b ! i' # rev (take i' b)"
    using Suc by (simp add: take_Suc_conv_app_nth)
  then show ?thesis using Suc by (simp add: opAt_def)
qed

lemma inv_border:
  "inv a b (fold firstRow [1..<Suc (length a)] (fold firstColumn [1..<Suc (length b)] (initTables (length b) (length a)))) 1 0"
proof -
  let ?m = "length b" and ?n = "length a"
  define t1 where "t1 = fold firstColumn [1..<Suc ?m] (initTables ?m ?n)"
  define t2 where "t2 = fold firstRow [1..<Suc ?n] t1"
  have c: "dims ?m ?n (dp t1)" "dims ?m ?n (bt t1)"
    "\<And>i j. i \<le> ?m \<Longrightarrow> j \<le> ?n \<Longrightarrow> dp t1 ! i ! j = (if j = 0 then i else 0)"
    "\<And>i j. i \<le> ?m \<Longrightarrow> j \<le> ?n \<Longrightarrow> bt t1 ! i ! j = (if j = 0 \<and> 1 \<le> i then Some Del else None)"
    using firstColumn_loop [of ?m ?m ?n] unfolding t1_def [symmetric] Let_def by simp_all
  have r: "dims ?m ?n (dp t2)" "dims ?m ?n (bt t2)"
    "\<And>i j. i \<le> ?m \<Longrightarrow> j \<le> ?n \<Longrightarrow> dp t2 ! i ! j = (if i = 0 \<and> 1 \<le> j then j else dp t1 ! i ! j)"
    "\<And>i j. i \<le> ?m \<Longrightarrow> j \<le> ?n \<Longrightarrow> bt t2 ! i ! j = (if i = 0 \<and> 1 \<le> j then Some Ins else bt t1 ! i ! j)"
    using firstRow_loop [OF c(1) c(2), of ?n] unfolding t2_def [symmetric] Let_def by simp_all
  have "final a b t2 i j" if "i \<le> ?m" "j \<le> ?n" "i = 0 \<or> j = 0" for i j
  proof (cases "i = 0")
    case True
    then show ?thesis using that
      by (cases "j = 0") (simp_all add: final_def r(3) r(4) c(3) c(4) opAt_row0)
  next
    case False
    then have "j = 0" using that by simp
    then show ?thesis using that False
      by (simp add: final_def r(3) r(4) c(3) c(4) opAt_col0 levr_Nil2)
  qed
  then have "inv a b t2 1 0"
    unfolding inv_def using r(1) r(2) by auto
  then show ?thesis unfolding t2_def t1_def .
qed

lemma rev_take_Suc: "i < length b \<Longrightarrow> rev (take (Suc i) b) = b ! i # rev (take i b)"
  by (simp add: take_Suc_conv_app_nth)

lemma final_cell:
  assumes "inv a b t k l" "1 \<le> k" "k \<le> length b" "l < length a"
  shows "final a b (cell a b k (Suc l) t) k (Suc l)"
proof -
  obtain k' where k: "k = Suc k'" using assms(2) by (cases k) auto
  have d: "dims (length b) (length a) (dp t)" "dims (length b) (length a) (bt t)"
    using assms(1) by (auto simp: inv_def)
  have "final a b t k' (Suc l)" "final a b t k l" "final a b t k' l"
    using assms k by (auto simp: inv_def)
  then have f: "dp t ! (k - 1) ! Suc l = levr (rev (take k' b)) (rev (take (Suc l) a))"
    "dp t ! k ! (Suc l - 1) = levr (rev (take k b)) (rev (take l a))"
    "dp t ! (k - 1) ! (Suc l - 1) = levr (rev (take k' b)) (rev (take l a))"
    using k by (simp_all add: final_def)
  have xs: "rev (take k b) = b ! k' # rev (take k' b)"
    using assms(3) k by (simp add: rev_take_Suc)
  have ys: "rev (take (Suc l) a) = a ! l # rev (take l a)"
    using assms(4) by (simp add: rev_take_Suc)
  have kl: "k \<le> length b" "Suc l \<le> length a" using assms by auto
  have p1: "\<And>v. put (dp t) k (Suc l) v ! k ! Suc l = v"
    using put_nth [OF d(1) kl kl(1)] by simp
  have p2: "\<And>v. put (bt t) k (Suc l) v ! k ! Suc l = v"
    using put_nth [OF d(2) kl kl(1)] by simp
  have bk: "b ! (k - 1) = b ! k'" "a ! (Suc l - 1) = a ! l" using k by simp_all
  show ?thesis
    unfolding final_def cell_def Let_def tables.simps p1 p2 f bk opAt_def
    unfolding xs ys
    using cell_choice [of "rev (take k' b)" "a ! l" "rev (take l a)" "b ! k'"]
    by simp
qed

lemma inv_cell:
  assumes "inv a b t k l" "1 \<le> k" "k \<le> length b" "l < length a"
  shows "inv a b (cell a b k (Suc l) t) k (Suc l)"
proof -
  let ?t = "cell a b k (Suc l) t"
  have d: "dims (length b) (length a) (dp t)" "dims (length b) (length a) (bt t)"
    using assms(1) by (auto simp: inv_def)
  have kl: "k \<le> length b" "Suc l \<le> length a" using assms by auto
  have d': "dims (length b) (length a) (dp ?t)" "dims (length b) (length a) (bt ?t)"
    using d by (simp_all add: cell_def Let_def dims_put)
  have same: "final a b ?t i j = final a b t i j"
    if "i \<le> length b" "(i, j) \<noteq> (k, Suc l)" for i j
  proof -
    obtain v w where c: "?t = \<lparr>dp = put (dp t) k (Suc l) v, bt = put (bt t) k (Suc l) w\<rparr>"
      by (simp add: cell_def Let_def)
    have "dp ?t ! i ! j = dp t ! i ! j" "bt ?t ! i ! j = bt t ! i ! j"
      using that(2) unfolding c tables.simps
      by (auto simp: put_nth [OF d(1) kl that(1)] put_nth [OF d(2) kl that(1)])
    then show ?thesis by (simp add: final_def)
  qed
  have "final a b ?t i j"
    if "i \<le> length b" "j \<le> length a" "i < k \<or> (i = k \<and> j \<le> Suc l) \<or> j = 0" for i j
  proof (cases "(i, j) = (k, Suc l)")
    case True
    then show ?thesis using final_cell [OF assms] by simp
  next
    case False
    have "final a b t i j" using assms(1) that False by (auto simp: inv_def)
    then show ?thesis using same [OF that(1) False] by simp
  qed
  then show ?thesis unfolding inv_def using d' by blast
qed

lemma inv_inner:
  assumes "inv a b t k 0" "1 \<le> k" "k \<le> length b"
  shows "l \<le> length a \<Longrightarrow> inv a b (fold (cell a b k) [1..<Suc l] t) k l"
proof (induction l)
  case 0
  then show ?case using assms by simp
next
  case (Suc l)
  then have "inv a b (fold (cell a b k) [1..<Suc l] t) k l" by simp
  from inv_cell [OF this assms(2,3)] Suc.prems show ?case by simp
qed

lemma inv_next_row: "inv a b t k (length a) \<Longrightarrow> inv a b t (Suc k) 0"
  unfolding inv_def by (auto simp: less_Suc_eq)

lemma inv_outer:
  assumes "inv a b t 1 0"
  shows "k \<le> length b \<Longrightarrow> inv a b (fold (\<lambda>i. fold (cell a b i) [1..<Suc (length a)]) [1..<Suc k] t) (Suc k) 0"
proof (induction k)
  case 0
  then show ?case using assms by simp
next
  case (Suc k)
  define t' where "t' = fold (\<lambda>i. fold (cell a b i) [1..<Suc (length a)]) [1..<Suc k] t"
  have "inv a b t' (Suc k) 0" using Suc unfolding t'_def by simp
  then have "inv a b (fold (cell a b (Suc k)) [1..<Suc (length a)] t') (Suc k) (length a)"
    using inv_inner [of a b t' "Suc k" "length a"] Suc.prems by simp
  then have "inv a b (fold (cell a b (Suc k)) [1..<Suc (length a)] t') (Suc (Suc k)) 0"
    by (rule inv_next_row)
  then show ?case unfolding t'_def by simp
qed

lemma fillTables_final:
  assumes "i \<le> length b" "j \<le> length a"
  shows "dp (fillTables a b) ! i ! j = levr (rev (take i b)) (rev (take j a))"
    and "bt (fillTables a b) ! i ! j = opAt a b i j"
    and "dims (length b) (length a) (bt (fillTables a b))"
proof -
  have "inv a b (fillTables a b) (Suc (length b)) 0"
    unfolding fillTables_def Let_def
    by (rule inv_outer [OF inv_border, of "length b"]) simp
  then show "dp (fillTables a b) ! i ! j = levr (rev (take i b)) (rev (take j a))"
    and "bt (fillTables a b) ! i ! j = opAt a b i j"
    and "dims (length b) (length a) (bt (fillTables a b))"
    using assms unfolding inv_def final_def by (auto simp: less_Suc_eq_le)
qed

section \<open>The backtrace follows the path\<close>

lemma stepsMask_simps:
  "stepsMask [] = []"
  "stepsMask (Del # ops) = stepsMask ops"
  "stepsMask (Eq # ops) = stepsMask ops @ [False]"
  "stepsMask (Rep # ops) = stepsMask ops @ [True]"
  "stepsMask (Ins # ops) = stepsMask ops @ [True]"
  by (simp_all add: stepsMask_def)

lemma steps_Cons_Cons:
  "steps (x # xs) (y # ys) = (if x = y then Eq else Rep) # steps xs ys \<or>
   steps (x # xs) (y # ys) = Ins # steps (x # xs) ys \<or>
   steps (x # xs) (y # ys) = Del # steps xs (y # ys)"
  by (simp add: steps.simps(4))

lemma length_stepsMask: "length (stepsMask (steps xs ys)) = length ys"
proof (induction xs ys rule: steps.induct)
  case (4 x xs y ys)
  show ?case
  proof (cases "levr xs ys + (if x = y then 0 else 1) = levr (x # xs) (y # ys)")
    case True
    then show ?thesis using "4.IH"(1) by (simp add: steps.simps(4) stepsMask_simps)
  next
    case c1: False
    show ?thesis
    proof (cases "levr (x # xs) ys + 1 = levr (x # xs) (y # ys)")
      case True
      then show ?thesis using "4.IH"(2) c1 by (simp add: steps.simps(4) stepsMask_simps)
    next
      case False
      then show ?thesis using "4.IH"(3) c1 by (simp add: steps.simps(4) stepsMask_simps)
    qed
  qed
qed (simp_all add: stepsMask_simps)

lemma readOp_fill:
  assumes "i \<le> length b" "j \<le> length a"
  shows "readOp (bt (fillTables a b)) (int i) (int j) = Inr (opAt a b i j)"
  using fillTables_final(3) [OF assms] fillTables_final(2) [OF assms] assms
  by (simp add: readOp_def dims_def)

lemma nth_snoc_mask:
  "length sm = j' \<Longrightarrow> (k < Suc j' \<and> (sm @ [v]) ! k) = ((k < j' \<and> sm ! k) \<or> (k = j' \<and> v))"
  by (auto simp: nth_append less_Suc_eq)

lemma backtrace_fill:
  assumes "i \<le> length b" "j \<le> length a" "length msk = length a"
  shows "\<exists>r. backtrace (bt (fillTables a b)) (int i) (int j) msk = Inr r \<and> length r = length a \<and>
           (\<forall>k<length a. r ! k = (msk ! k \<or> (k < j \<and> stepsMask (steps (rev (take i b)) (rev (take j a))) ! k)))"
  using assms
proof (induction "i + j" arbitrary: i j msk rule: less_induct)
  case less
  let ?t = "bt (fillTables a b)"
  let ?P = "\<lambda>i j msk r. backtrace ?t (int i) (int j) msk = Inr r \<and> length r = length a \<and>
           (\<forall>k<length a. r ! k = (msk ! k \<or> (k < j \<and> stepsMask (steps (rev (take i b)) (rev (take j a))) ! k)))"
  have IH: "\<exists>r. ?P i' j' msk' r"
    if "i' + j' < i + j" "i' \<le> length b" "j' \<le> length a" "length msk' = length a" for i' j' msk'
    using less.hyps [OF that] .
  note rd = readOp_fill [OF less.prems(1,2)]
  show ?case
  proof (cases i)
    case i0: 0
    show ?thesis
    proof (cases j)
      case 0
      then show ?thesis using i0 less.prems by (simp add: backtrace.simps)
    next
      case (Suc j')
      have ys: "rev (take (Suc j') a) = a ! j' # rev (take j' a)"
        using less.prems Suc by (simp add: rev_take_Suc)
      have op: "readOp ?t (int i) (int j) = Inr (Some Ins)"
        using rd i0 ys Suc by (simp add: opAt_def)
      have st: "setTrue msk (int j - 1) = msk[j' := True]"
        using less.prems Suc by (simp add: setTrue_def)
      have bt: "backtrace ?t (int i) (int j) msk = backtrace ?t (int i) (int j') (msk[j' := True])"
        using op st Suc by (subst backtrace.simps) simp
      from IH [of i j' "msk[j' := True]"] less.prems Suc
      obtain r where r: "?P i j' (msk[j' := True]) r" by auto
      have len: "length (stepsMask (steps [] (rev (take j' a)))) = j'"
        using less.prems Suc by (simp add: length_stepsMask)
      show ?thesis
        apply (subst bt)
        using r less.prems Suc i0
        by (auto simp: ys stepsMask_simps nth_snoc_mask [OF len] nth_list_update)
    qed
  next
    case (Suc i')
    have xs: "rev (take (Suc i') b) = b ! i' # rev (take i' b)"
      using less.prems Suc by (simp add: rev_take_Suc)
    show ?thesis
    proof (cases j)
      case 0
      have op: "readOp ?t (int i) (int j) = Inr (Some Del)"
        using rd 0 xs Suc by (simp add: opAt_def)
      have bt: "backtrace ?t (int i) (int j) msk = backtrace ?t (int i') (int j) msk"
        using op Suc by (subst backtrace.simps) simp
      from IH [of i' j msk] less.prems Suc
      obtain r where r: "?P i' j msk r" by auto
      show ?thesis
        apply (subst bt)
        using r 0 by auto
    next
      case j: (Suc j')
      have ys: "rev (take (Suc j') a) = a ! j' # rev (take j' a)"
        using less.prems j by (simp add: rev_take_Suc)
      let ?x = "b ! i'" and ?xs = "rev (take i' b)" and ?y = "a ! j'" and ?ys = "rev (take j' a)"
      have st: "setTrue msk (int j - 1) = msk[j' := True]"
        using less.prems j by (simp add: setTrue_def)
      have hd: "opAt a b i j = Some (hd (steps (?x # ?xs) (?y # ?ys)))"
        using steps_Cons_Cons [of ?x ?xs ?y ?ys] unfolding opAt_def Suc j xs ys by auto
      have ij: "int i - 1 = int i'" "int j - 1 = int j'" using Suc j by simp_all
      have jl: "j' < length msk" using less.prems j by simp
      have pos: "int i > 0 \<or> int j > 0" using Suc by simp
      consider
          (eq) "steps (?x # ?xs) (?y # ?ys) = Eq # steps ?xs ?ys"
        | (rep) "steps (?x # ?xs) (?y # ?ys) = Rep # steps ?xs ?ys"
        | (ins) "steps (?x # ?xs) (?y # ?ys) = Ins # steps (?x # ?xs) ?ys"
        | (del) "steps (?x # ?xs) (?y # ?ys) = Del # steps ?xs (?y # ?ys)"
        using steps_Cons_Cons [of ?x ?xs ?y ?ys] by (auto split: if_splits)
      then show ?thesis
      proof cases
        case eq
        have bt: "backtrace ?t (int i) (int j) msk = backtrace ?t (int i') (int j') msk"
          using rd hd eq pos ij by (subst backtrace.simps) simp
        from IH [of i' j' msk] less.prems Suc j
        obtain r where r: "?P i' j' msk r" by auto
        have len: "length (stepsMask (steps ?xs ?ys)) = j'"
          using less.prems j by (simp add: length_stepsMask)
        show ?thesis
          apply (subst bt)
          unfolding Suc j xs ys eq using r
          by (auto simp: stepsMask_simps nth_snoc_mask [OF len])
      next
        case rep
        have bt: "backtrace ?t (int i) (int j) msk = backtrace ?t (int i') (int j') (msk[j' := True])"
          using rd hd rep pos ij st by (subst backtrace.simps) simp
        from IH [of i' j' "msk[j' := True]"] less.prems Suc j
        obtain r where r: "?P i' j' (msk[j' := True]) r" by auto
        have len: "length (stepsMask (steps ?xs ?ys)) = j'"
          using less.prems j by (simp add: length_stepsMask)
        show ?thesis
          apply (subst bt)
          unfolding Suc j xs ys rep using r jl
          by (auto simp: stepsMask_simps nth_snoc_mask [OF len] nth_list_update)
      next
        case ins
        have bt: "backtrace ?t (int i) (int j) msk = backtrace ?t (int i) (int j') (msk[j' := True])"
          using rd hd ins pos ij st by (subst backtrace.simps) simp
        from IH [of i j' "msk[j' := True]"] less.prems Suc j
        obtain r where r: "?P i j' (msk[j' := True]) r" by auto
        have len: "length (stepsMask (steps (?x # ?xs) ?ys)) = j'"
          using less.prems j by (simp add: length_stepsMask)
        show ?thesis
          apply (subst bt)
          unfolding j ys ins using r jl unfolding Suc xs ys ins
          by (auto simp: stepsMask_simps nth_snoc_mask [OF len] nth_list_update)
      next
        case del
        have bt: "backtrace ?t (int i) (int j) msk = backtrace ?t (int i') (int j) msk"
          using rd hd del pos ij by (subst backtrace.simps) simp
        from IH [of i' j msk] less.prems Suc j
        obtain r where r: "?P i' j msk r" by auto
        show ?thesis
          apply (subst bt)
          unfolding Suc xs using r unfolding j ys del
          by (auto simp: stepsMask_simps)
      qed
    qed
  qed
qed

lemma editMask_eq:
  "editMask a b = Inr \<lparr>score = levr (rev b) (rev a), mask = stepsMask (steps (rev b) (rev a))\<rparr>"
proof -
  let ?n = "length a" and ?m = "length b"
  from backtrace_fill [of ?m b ?n a "replicate ?n False"]
  obtain r where r: "backtrace (bt (fillTables a b)) (int ?m) (int ?n) (replicate ?n False) = Inr r"
    "length r = ?n"
    "\<forall>k<?n. r ! k = (replicate ?n False ! k \<or> (k < ?n \<and> stepsMask (steps (rev (take ?m b)) (rev (take ?n a))) ! k))"
    by auto
  have "r = stepsMask (steps (rev b) (rev a))"
    using r(2,3) by (intro nth_equalityI) (simp_all add: length_stepsMask)
  moreover have "dp (fillTables a b) ! ?m ! ?n = levr (rev b) (rev a)"
    using fillTables_final(1) [of ?m b ?n a] by simp
  ultimately show ?thesis
    using r(1) by (simp add: editMask_def Let_def)
qed

lemma levr_same: "levr xs xs = 0"
  by (induction xs) (simp_all add: levr.simps(3))

lemma levr_zero: "levr xs ys = 0 \<Longrightarrow> xs = ys"
proof (induction xs ys rule: levr.induct)
  case (3 x xs y ys)
  from "3.prems" have "levr xs ys + (if x = y then 0 else 1) = 0"
    by (simp add: levr.simps(3) min_def split: if_splits)
  then have "x = y" "levr xs ys = 0" by (simp_all split: if_splits)
  then show ?case using "3.IH"(1) by simp
qed simp_all

lemma steps_same: "steps xs xs = replicate (length xs) Eq"
  by (induction xs) (simp_all add: steps.simps(4) levr_same)

lemma stepsMask_Eq: "stepsMask (replicate n Eq) = replicate n False"
  by (simp add: stepsMask_def)

lemma editMask_total:
  "\<exists>r. editMask attested expected = Inr r \<and>
       length (mask r) = length attested \<and>
       (score r = 0 \<longleftrightarrow> attested = expected) \<and>
       (attested = expected \<longrightarrow> mask r = replicate (length attested) False)"
proof -
  have "levr (rev expected) (rev attested) = 0 \<longleftrightarrow> attested = expected"
    using levr_zero [of "rev expected" "rev attested"] levr_same [of "rev attested"] by auto
  then show ?thesis
    by (auto simp: editMask_eq length_stepsMask steps_same stepsMask_Eq)
qed

lemma steps_cost: "length (filter (\<lambda>x. x \<noteq> Eq) (steps xs ys)) = levr xs ys"
proof (induction xs ys rule: steps.induct)
  case (3 x xs)
  then show ?case by (simp add: levr_Nil2)
next
  case (4 x xs y ys)
  show ?case
  proof (cases "levr xs ys + (if x = y then 0 else 1) = levr (x # xs) (y # ys)")
    case True
    then show ?thesis using "4.IH"(1) by (auto simp add: steps.simps(4))
  next
    case c1: False
    show ?thesis
    proof (cases "levr (x # xs) ys + 1 = levr (x # xs) (y # ys)")
      case True
      then show ?thesis using "4.IH"(2) c1 by (simp add: steps.simps(4))
    next
      case False
      then have "levr xs (y # ys) + 1 = levr (x # xs) (y # ys)"
        using c1 by (simp add: levr.simps(3) min_def split: if_splits)
      then show ?thesis using "4.IH"(3) c1 False by (simp add: steps.simps(4))
    qed
  qed
qed simp_all


section \<open>Claims about editMask\<close>

text \<open>
  C1. For every pair of finite strings, \<open>editMask attested expected\<close> returns a result
  (it does not throw); the mask has the length of \<open>attested\<close>; the cost is 0 exactly when
  the two strings are equal, and then the mask is false everywhere. In particular every
  variant that \<open>expectedRegularVariants\<close> generates, aligned with itself, has cost 0 and
  an all-false mask.
\<close>

theorem editMask_length_cost:
  "(\<exists>r. editMask attested expected = Inr r \<and>
        length (mask r) = length attested \<and>
        (score r = 0 \<longleftrightarrow> attested = expected) \<and>
        (attested = expected \<longrightarrow> mask r = replicate (length attested) False)) \<and>
   (\<forall>x \<in> set (expectedRegularVariants lc infinitive tenseKey personIndex stems).
        editMask x x = Inr \<lparr>score = 0, mask = replicate (length x) False\<rparr>)"
proof
  show "\<exists>r. editMask attested expected = Inr r \<and>
        length (mask r) = length attested \<and>
        (score r = 0 \<longleftrightarrow> attested = expected) \<and>
        (attested = expected \<longrightarrow> mask r = replicate (length attested) False)"
    by (rule editMask_total)
next
  show "\<forall>x \<in> set (expectedRegularVariants lc infinitive tenseKey personIndex stems).
        editMask x x = Inr \<lparr>score = 0, mask = replicate (length x) False\<rparr>"
    by (simp add: editMask_eq levr_same steps_same stepsMask_Eq)
qed

theorem editMask_length_cost_witness:
  "str ''appelle'' \<in> set (expectedRegularVariants lowerLatin1 (str ''appeler'') present 0 None) \<and>
   editMask (str ''appelle'') (str ''appelle'')
     = Inr \<lparr>score = 0, mask = replicate (length (str ''appelle'')) False\<rparr> \<and>
   (\<exists>r. editMask (str ''boiais'') (str ''buvais'') = Inr r \<and>
        length (mask r) = length (str ''boiais'') \<and> score r \<noteq> 0)"
proof -
  have m: "str ''appelle'' \<in> set (expectedRegularVariants lowerLatin1 (str ''appeler'') present 0 None)"
    by code_simp
  have ne: "str ''boiais'' \<noteq> str ''buvais''"
    by code_simp
  show ?thesis
    using m ne
      editMask_length_cost [of "str ''boiais''" "str ''buvais''" lowerLatin1 "str ''appeler''" present 0 None]
    by blast
qed

text \<open>
  C2. The mask that \<open>editMask\<close> returns is the mask of the path \<open>steps\<close>: one entry for
  each character of \<open>attested\<close>, true where the path takes a substitution or an
  insertion, false where it takes a match, and no entry for a deletion. The path starts at
  the ends of both strings, prefers the substitution or match, then the insertion, then
  the deletion among the steps that keep it optimal, and its number of edits is the
  returned cost.
\<close>

theorem editMask_backtrace_path:
  "editMask attested expected =
     Inr \<lparr>score = levr (rev expected) (rev attested),
          mask = stepsMask (steps (rev expected) (rev attested))\<rparr> \<and>
   length (filter (\<lambda>x. x \<noteq> Eq) (steps (rev expected) (rev attested)))
     = levr (rev expected) (rev attested)"
  by (simp add: editMask_eq steps_cost)

theorem editMask_backtrace_path_witness:
  "editMask (str ''ab'') (str ''ba'') = Inr \<lparr>score = 2, mask = [True, True]\<rparr> \<and>
   steps (rev (str ''ba'')) (rev (str ''ab'')) = [Rep, Rep] \<and>
   editMask (str ''bcd'') (str ''abc'') = Inr \<lparr>score = 2, mask = [False, False, True]\<rparr> \<and>
   steps (rev (str ''abc'')) (rev (str ''bcd'')) = [Ins, Eq, Eq, Del]"
proof -
  have s1: "steps (rev (str ''ba'')) (rev (str ''ab'')) = [Rep, Rep]"
    by code_simp
  have s2: "steps (rev (str ''abc'')) (rev (str ''bcd'')) = [Ins, Eq, Eq, Del]"
    by code_simp
  show ?thesis
    using editMask_backtrace_path [of "str ''ab''" "str ''ba''"]
      editMask_backtrace_path [of "str ''bcd''" "str ''abc''"]
    unfolding s1 s2 by (simp add: stepsMask_def)
qed

section \<open>Claims about bestExpectedMask\<close>

lemma bestLoop_Cons:
  "bestLoop a (v # rest) best bs k =
     (if enat (levr (rev v) (rev a)) < bs
      then (if levr (rev v) (rev a) = 0 then Inr (Some (stepsMask (steps (rev v) (rev a))), Suc k)
            else bestLoop a rest (Some (stepsMask (steps (rev v) (rev a)))) (enat (levr (rev v) (rev a))) (Suc k))
      else bestLoop a rest best bs (Suc k))"
  by (simp add: editMask_eq)

lemma bestLoop_min:
  "\<exists>res k'. bestLoop a vs best bs k = Inr (res, k') \<and>
     (((\<forall>j<length vs. bs \<le> enat (levr (rev (vs ! j)) (rev a))) \<and> res = best) \<or>
      (\<exists>i<length vs. res = Some (stepsMask (steps (rev (vs ! i)) (rev a))) \<and>
          enat (levr (rev (vs ! i)) (rev a)) < bs \<and>
          (\<forall>j<length vs. levr (rev (vs ! i)) (rev a) \<le> levr (rev (vs ! j)) (rev a)) \<and>
          (\<forall>j<i. levr (rev (vs ! i)) (rev a) < levr (rev (vs ! j)) (rev a))))"
proof (induction vs arbitrary: best bs k)
  case Nil
  then show ?case by simp
next
  case (Cons v rest)
  let ?c = "\<lambda>u. levr (rev u) (rev a)"
  let ?m = "\<lambda>u. stepsMask (steps (rev u) (rev a))"
  show ?case
  proof (cases "enat (?c v) < bs")
    case lt: True
    show ?thesis
    proof (cases "?c v = 0")
      case True
      have "bestLoop a (v # rest) best bs k = Inr (Some (?m v), Suc k)"
        using lt True by (simp add: bestLoop_Cons del: bestLoop.simps(2))
      moreover have "0 < length (v # rest)" by simp
      ultimately show ?thesis using lt True
        by (intro exI conjI disjI2 exI [of _ 0]) auto
    next
      case False
      have eq: "bestLoop a (v # rest) best bs k = bestLoop a rest (Some (?m v)) (enat (?c v)) (Suc k)"
        using lt False by (simp add: bestLoop_Cons del: bestLoop.simps(2))
      from Cons.IH [of "Some (?m v)" "enat (?c v)" "Suc k"]
      obtain res k' where r: "bestLoop a rest (Some (?m v)) (enat (?c v)) (Suc k) = Inr (res, k')"
        and d: "((\<forall>j<length rest. enat (?c v) \<le> enat (?c (rest ! j))) \<and> res = Some (?m v)) \<or>
          (\<exists>i<length rest. res = Some (?m (rest ! i)) \<and> enat (?c (rest ! i)) < enat (?c v) \<and>
             (\<forall>j<length rest. ?c (rest ! i) \<le> ?c (rest ! j)) \<and>
             (\<forall>j<i. ?c (rest ! i) < ?c (rest ! j)))"
        by blast
      from d show ?thesis
      proof
        assume h: "(\<forall>j<length rest. enat (?c v) \<le> enat (?c (rest ! j))) \<and> res = Some (?m v)"
        have "\<forall>j<length (v # rest). ?c ((v # rest) ! 0) \<le> ?c ((v # rest) ! j)"
          using h by (auto simp: nth_Cons')
        then show ?thesis
          unfolding eq r using h lt
          by (intro exI conjI disjI2 exI [of _ 0]) auto
      next
        assume "\<exists>i<length rest. res = Some (?m (rest ! i)) \<and> enat (?c (rest ! i)) < enat (?c v) \<and>
             (\<forall>j<length rest. ?c (rest ! i) \<le> ?c (rest ! j)) \<and>
             (\<forall>j<i. ?c (rest ! i) < ?c (rest ! j))"
        then obtain i where i: "i < length rest" "res = Some (?m (rest ! i))" "?c (rest ! i) < ?c v"
          "\<forall>j<length rest. ?c (rest ! i) \<le> ?c (rest ! j)" "\<forall>j<i. ?c (rest ! i) < ?c (rest ! j)"
          by auto
        have a1: "\<forall>j<length (v # rest). ?c ((v # rest) ! Suc i) \<le> ?c ((v # rest) ! j)"
          using i by (auto simp: nth_Cons' less_imp_le)
        have a2: "\<forall>j<Suc i. ?c ((v # rest) ! Suc i) < ?c ((v # rest) ! j)"
          using i by (auto simp: nth_Cons')
        have a3: "enat (?c ((v # rest) ! Suc i)) < bs"
          using i(3) lt by (simp add: less_trans [of "enat (?c (rest ! i))" "enat (?c v)" bs])
        show ?thesis
          unfolding eq r using i(1,2) a1 a2 a3
          by (intro exI conjI disjI2 exI [of _ "Suc i"]) auto
      qed
    qed
  next
    case ge: False
    have eq: "bestLoop a (v # rest) best bs k = bestLoop a rest best bs (Suc k)"
      using ge by (simp add: bestLoop_Cons del: bestLoop.simps(2))
    from Cons.IH [of best bs "Suc k"]
    obtain res k' where r: "bestLoop a rest best bs (Suc k) = Inr (res, k')"
      and d: "((\<forall>j<length rest. bs \<le> enat (?c (rest ! j))) \<and> res = best) \<or>
        (\<exists>i<length rest. res = Some (?m (rest ! i)) \<and> enat (?c (rest ! i)) < bs \<and>
           (\<forall>j<length rest. ?c (rest ! i) \<le> ?c (rest ! j)) \<and>
           (\<forall>j<i. ?c (rest ! i) < ?c (rest ! j)))"
      by blast
    from d show ?thesis
    proof
      assume h: "(\<forall>j<length rest. bs \<le> enat (?c (rest ! j))) \<and> res = best"
      have "\<forall>j<length (v # rest). bs \<le> enat (?c ((v # rest) ! j))"
        using h ge by (auto simp: nth_Cons' not_less)
      then show ?thesis unfolding eq r using h by blast
    next
      assume "\<exists>i<length rest. res = Some (?m (rest ! i)) \<and> enat (?c (rest ! i)) < bs \<and>
           (\<forall>j<length rest. ?c (rest ! i) \<le> ?c (rest ! j)) \<and>
           (\<forall>j<i. ?c (rest ! i) < ?c (rest ! j))"
      then obtain i where i: "i < length rest" "res = Some (?m (rest ! i))" "enat (?c (rest ! i)) < bs"
        "\<forall>j<length rest. ?c (rest ! i) \<le> ?c (rest ! j)" "\<forall>j<i. ?c (rest ! i) < ?c (rest ! j)"
        by auto
      have lt: "?c (rest ! i) < ?c v"
        using i(3) ge by (metis enat_ord_simps(2) not_less order_less_le_trans)
      have a1: "\<forall>j<length (v # rest). ?c ((v # rest) ! Suc i) \<le> ?c ((v # rest) ! j)"
        using i lt by (auto simp: nth_Cons' less_imp_le)
      have a2: "\<forall>j<Suc i. ?c ((v # rest) ! Suc i) < ?c ((v # rest) ! j)"
        using i lt by (auto simp: nth_Cons')
      show ?thesis
        unfolding eq r using i(1,2,3) a1 a2
        by (intro exI conjI disjI2 exI [of _ "Suc i"]) auto
    qed
  qed
qed

lemma bestLoop_stop:
  assumes "levr (rev v) (rev a) = 0" "\<forall>u\<in>set pre. levr (rev u) (rev a) \<noteq> 0" "0 < bs"
  shows "bestLoop a (pre @ v # post) best bs k
           = Inr (Some (stepsMask (steps (rev v) (rev a))), k + length pre + 1)"
  using assms(2,3)
proof (induction pre arbitrary: best bs k)
  case Nil
  then show ?case using assms(1) by (simp add: bestLoop_Cons zero_enat_def [symmetric] del: bestLoop.simps(2))
next
  case (Cons u pre)
  have nz: "enat (levr (rev u) (rev a)) \<noteq> 0" "0 < enat (levr (rev u) (rev a))"
    using Cons.prems(1) by (simp_all add: enat_0_iff zero_enat_def)
  have "bestLoop a (pre @ v # post) best' bs' (Suc k) 
          = Inr (Some (stepsMask (steps (rev v) (rev a))), Suc k + length pre + 1)"
    if "0 < bs'" for best' bs'
    using Cons.IH [of bs' best' "Suc k"] Cons.prems(1) that by simp
  then show ?case
    using Cons.prems nz
    by (simp add: bestLoop_Cons del: bestLoop.simps(2))
qed


text \<open>
  C3. \<open>bestExpectedMask\<close> returns \<open>null\<close> exactly when the list of variants is empty.
  Otherwise it returns the mask of the first variant, in list order, whose cost is the
  least cost of all variants. The loop stops at the first variant of cost 0: it has then
  passed that variant and the ones before it to \<open>editMask\<close>, and no other.
\<close>

theorem bestExpectedMask_first_minimum:
  "(bestExpectedMask attested variants = Inr None \<longleftrightarrow> variants = []) \<and>
   (variants \<noteq> [] \<longrightarrow>
      (\<exists>k r. k < length variants \<and> editMask attested (variants ! k) = Inr r \<and>
          bestExpectedMask attested variants = Inr (Some (mask r)) \<and>
          (\<forall>j<length variants. \<exists>r'. editMask attested (variants ! j) = Inr r' \<and>
              score r \<le> score r' \<and> (j < k \<longrightarrow> score r < score r')))) \<and>
   (\<forall>pre v post r. variants = pre @ v # post \<and> editMask attested v = Inr r \<and> score r = 0 \<and>
        (\<forall>u\<in>set pre. \<forall>r'. editMask attested u = Inr r' \<longrightarrow> score r' \<noteq> 0) \<longrightarrow>
        bestLoop attested variants None \<infinity> 0 = Inr (Some (mask r), Suc (length pre)))"
proof -
  let ?c = "\<lambda>u. levr (rev u) (rev attested)"
  let ?m = "\<lambda>u. stepsMask (steps (rev u) (rev attested))"
  have nonempty: "\<exists>k r. k < length variants \<and> editMask attested (variants ! k) = Inr r \<and>
          bestExpectedMask attested variants = Inr (Some (mask r)) \<and>
          (\<forall>j<length variants. \<exists>r'. editMask attested (variants ! j) = Inr r' \<and>
              score r \<le> score r' \<and> (j < k \<longrightarrow> score r < score r'))"
    if ne: "variants \<noteq> []"
  proof -
    from bestLoop_min [of attested variants None \<infinity> 0]
    obtain res k' where r: "bestLoop attested variants None \<infinity> 0 = Inr (res, k')"
      and d: "((\<forall>j<length variants. \<infinity> \<le> enat (?c (variants ! j))) \<and> res = None) \<or>
        (\<exists>i<length variants. res = Some (?m (variants ! i)) \<and> enat (?c (variants ! i)) < \<infinity> \<and>
           (\<forall>j<length variants. ?c (variants ! i) \<le> ?c (variants ! j)) \<and>
           (\<forall>j<i. ?c (variants ! i) < ?c (variants ! j)))"
      by blast
    have "\<not> (\<forall>j<length variants. \<infinity> \<le> enat (?c (variants ! j)))"
      using ne by (auto intro: exI [of _ 0])
    with d obtain i where i: "i < length variants" "res = Some (?m (variants ! i))"
      "\<forall>j<length variants. ?c (variants ! i) \<le> ?c (variants ! j)"
      "\<forall>j<i. ?c (variants ! i) < ?c (variants ! j)"
      by blast
    have b: "bestExpectedMask attested variants = Inr (Some (?m (variants ! i)))"
      using ne r i(2) by (simp add: bestExpectedMask_def)
    show ?thesis
      apply (rule exI [of _ i])
      apply (rule exI [of _ "\<lparr>score = ?c (variants ! i), mask = ?m (variants ! i)\<rparr>"])
      using i(1,3,4) b by (simp add: editMask_eq)
  qed
  have null: "bestExpectedMask attested variants = Inr None \<longleftrightarrow> variants = []"
  proof (cases "variants = []")
    case True
    then show ?thesis by (simp add: bestExpectedMask_def)
  next
    case False
    then show ?thesis using nonempty [OF False] by auto
  qed
  have stop: "bestLoop attested variants None \<infinity> 0 = Inr (Some (mask r), Suc (length pre))"
    if "variants = pre @ v # post" "editMask attested v = Inr r" "score r = 0"
       "\<forall>u\<in>set pre. \<forall>r'. editMask attested u = Inr r' \<longrightarrow> score r' \<noteq> 0"
    for pre v post r
  proof -
    have r: "r = \<lparr>score = ?c v, mask = ?m v\<rparr>" using that(2) by (simp add: editMask_eq)
    have z: "?c v = 0" using that(3) r by simp
    have p: "\<forall>u\<in>set pre. ?c u \<noteq> 0" using that(4) by (simp add: editMask_eq)
    show ?thesis
      using bestLoop_stop [OF z p, of \<infinity> post None 0] that(1) r by simp
  qed
  show ?thesis using null nonempty stop by blast
qed

theorem bestExpectedMask_first_minimum_witness:
  "bestLoop (str ''boiais'') [str ''buvais'', str ''boiais'', str ''xx''] None \<infinity> 0
     = Inr (Some (replicate 6 False), 2) \<and>
   bestExpectedMask (str ''ab'') [] = Inr None \<and>
   bestExpectedMask (str ''ab'') [str ''b'', str ''a''] = Inr (Some [True, False])"
proof -
  have e1: "editMask (str ''boiais'') (str ''boiais'') = Inr \<lparr>score = 0, mask = replicate 6 False\<rparr>"
    by code_simp
  have e2: "editMask (str ''boiais'') (str ''buvais'') = Inr \<lparr>score = 2, mask = [False, True, True, False, False, False]\<rparr>"
    by code_simp
  have sp: "[str ''buvais'', str ''boiais'', str ''xx''] = [str ''buvais''] @ str ''boiais'' # [str ''xx'']"
    by simp
  have a: "bestLoop (str ''boiais'') [str ''buvais'', str ''boiais'', str ''xx''] None \<infinity> 0
     = Inr (Some (replicate 6 False), 2)"
    using bestExpectedMask_first_minimum [of "str ''boiais''" "[str ''buvais'', str ''boiais'', str ''xx'']"]
      e1 e2 sp by fastforce
  have b: "bestExpectedMask (str ''ab'') [] = Inr None"
    using bestExpectedMask_first_minimum [of "str ''ab''" "[]"] by simp
  have e3: "editMask (str ''ab'') (str ''b'') = Inr \<lparr>score = 1, mask = [True, False]\<rparr>"
    by code_simp
  have e4: "editMask (str ''ab'') (str ''a'') = Inr \<lparr>score = 1, mask = [False, True]\<rparr>"
    by code_simp
  from bestExpectedMask_first_minimum [of "str ''ab''" "[str ''b'', str ''a'']"]
  obtain k r where k: "k < length [str ''b'', str ''a'']"
    "editMask (str ''ab'') ([str ''b'', str ''a''] ! k) = Inr r"
    "bestExpectedMask (str ''ab'') [str ''b'', str ''a''] = Inr (Some (mask r))"
    "\<forall>j<length [str ''b'', str ''a''].
        \<exists>r'. editMask (str ''ab'') ([str ''b'', str ''a''] ! j) = Inr r' \<and>
             score r \<le> score r' \<and> (j < k \<longrightarrow> score r < score r')"
    by blast
  have "k = 0"
  proof (rule ccontr)
    assume "k \<noteq> 0"
    then have k1: "k = 1" using k(1) by simp
    from k(4) have "\<exists>r'. editMask (str ''ab'') ([str ''b'', str ''a''] ! 0) = Inr r' \<and>
             score r \<le> score r' \<and> (0 < k \<longrightarrow> score r < score r')"
      by (elim allE [of _ 0]) simp
    then show False using k(2) k1 e3 e4 by auto
  qed
  then have c: "bestExpectedMask (str ''ab'') [str ''b'', str ''a''] = Inr (Some [True, False])"
    using k(2,3) e3 by auto
  show ?thesis using a b c by blast
qed

section \<open>Claims about applyBlackUnionRules\<close>

lemma commonRun_prefix: "prefix (commonRun lc xs ys) xs"
  by (induction lc xs ys rule: commonRun.induct) simp_all

lemma commonRun_lc_prefix: "prefix (map lc (commonRun lc xs ys)) (map lc ys)"
  by (induction lc xs ys rule: commonRun.induct) simp_all

lemma unionLoop_prefix:
  "prefix (unionLoop lc shared rest) shared \<and>
   (\<forall>f\<in>set rest. prefix (map lc (unionLoop lc shared rest)) (map lc f))"
proof (induction rest arbitrary: shared)
  case Nil
  then show ?case by simp
next
  case (Cons form rest)
  let ?tmp = "commonRun lc shared form"
  show ?case
  proof (cases "?tmp = []")
    case True
    then show ?thesis by simp
  next
    case False
    let ?r = "unionLoop lc ?tmp rest"
    have r: "unionLoop lc shared (form # rest) = ?r" using False by simp
    have p: "prefix ?r ?tmp" and q: "\<forall>f\<in>set rest. prefix (map lc ?r) (map lc f)"
      using Cons.IH [of ?tmp] by simp_all
    have "prefix ?r shared"
      using p commonRun_prefix [of lc shared form] by (rule prefix_order.trans)
    moreover have "prefix (map lc ?r) (map lc form)"
      using map_mono_prefix [OF p, of lc] commonRun_lc_prefix [of lc shared form]
      by (rule prefix_order.trans)
    ultimately show ?thesis unfolding r using q by simp
  qed
qed

text \<open>
  C9. For a non-empty list of forms, \<open>applyBlackUnionRules\<close> returns a prefix of the first
  form, in the first form's own characters, and its lower-casing is a prefix of the
  lower-casing of every form of the list. For the empty list it returns the empty string.
\<close>

theorem applyBlackUnionRules_prefix:
  "(forms \<noteq> [] \<longrightarrow>
      prefix (applyBlackUnionRules lc forms) (hd forms) \<and>
      (\<forall>f\<in>set forms. prefix (map lc (applyBlackUnionRules lc forms)) (map lc f))) \<and>
   applyBlackUnionRules lc [] = []"
proof (cases forms)
  case Nil
  then show ?thesis by (simp add: applyBlackUnionRules_def)
next
  case (Cons first rest)
  have "prefix (map lc (unionLoop lc first rest)) (map lc first)"
    using unionLoop_prefix [of lc first rest] by (simp add: map_mono_prefix)
  then show ?thesis
    using Cons unionLoop_prefix [of lc first rest] by (simp add: applyBlackUnionRules_def)
qed

theorem applyBlackUnionRules_prefix_witness:
  "prefix (applyBlackUnionRules lowerLatin1 [str ''Parle'', str ''pARLons'']) (str ''Parle'') \<and>
   prefix (map lowerLatin1 (applyBlackUnionRules lowerLatin1 [str ''Parle'', str ''pARLons'']))
     (map lowerLatin1 (str ''pARLons'')) \<and>
   applyBlackUnionRules lowerLatin1 [str ''Parle'', str ''pARLons''] = str ''Parl''"
proof -
  have "applyBlackUnionRules lowerLatin1 [str ''Parle'', str ''pARLons''] = str ''Parl''"
    by code_simp
  moreover have "[str ''Parle'', str ''pARLons''] \<noteq> []" by simp
  ultimately show ?thesis
    using applyBlackUnionRules_prefix [of "[str ''Parle'', str ''pARLons'']" lowerLatin1]
    by simp
qed

text \<open>
  C6, as stated: fed only five forms, the shared-prefix computation yields the empty
  string. It does not: \<open>applyBlackUnionRules\<close> has no gate on the number of forms.
\<close>

theorem sharedPrefix_five_forms_counterexample:
  "applyBlackUnionRules lowerLatin1
     [str ''parle'', str ''parles'', str ''parle'', str ''parlons'', str ''parlez''] \<noteq> []"
  by code_simp

text \<open>
  C6, amended. The six forms of \<open>parler\<close> have the shared prefix \<open>parl\<close>, and so have
  the first five of them. The gate on six forms is in \<open>buildTenseCell\<close>: a cell
  of fewer than six forms is returned empty, no shared prefix is computed for it and none
  of its forms is coloured.
\<close>

theorem sharedPrefix_six_forms:
  "applyBlackUnionRules lowerLatin1
     [str ''parle'', str ''parles'', str ''parle'', str ''parlons'', str ''parlez'', str ''parlent'']
     = str ''parl'' \<and>
   applyBlackUnionRules lowerLatin1
     [str ''parle'', str ''parles'', str ''parle'', str ''parlons'', str ''parlez'']
     = str ''parl'' \<and>
   (length words < 6 \<longrightarrow> buildTenseCell lc infinitive tk nous words = Inr [])"
proof -
  have "applyBlackUnionRules lowerLatin1
     [str ''parle'', str ''parles'', str ''parle'', str ''parlons'', str ''parlez'', str ''parlent'']
     = str ''parl''"
    by code_simp
  moreover have "applyBlackUnionRules lowerLatin1
     [str ''parle'', str ''parles'', str ''parle'', str ''parlons'', str ''parlez'']
     = str ''parl''"
    by code_simp
  ultimately show ?thesis by (simp add: buildTenseCell_def)
qed

theorem sharedPrefix_six_forms_witness:
  "buildTenseCell lowerLatin1 (str ''parler'') present (str ''parlons'')
     [str ''parle'', str ''parles'', str ''parle'', str ''parlons'', str ''parlez''] = Inr []"
proof -
  have "length [str ''parle'', str ''parles'', str ''parle'', str ''parlons'', str ''parlez''] < 6"
    by simp
  then show ?thesis
    using sharedPrefix_six_forms [of "[str ''parle'', str ''parles'', str ''parle'', str ''parlons'', str ''parlez'']"
        lowerLatin1 "str ''parler''" present "str ''parlons''"]
    by blast
qed

section \<open>Claims about markStemLetters\<close>

lemma indexOf_Some:
  assumes "indexOf s ch from = Some idx"
  shows "from \<le> idx" "idx < length s" "s ! idx = ch"
proof -
  from assms obtain rest where "filter (\<lambda>i. s ! i = ch) [from..<length s] = idx # rest"
    by (auto simp: indexOf_def split: list.splits)
  then have "idx \<in> set (filter (\<lambda>i. s ! i = ch) [from..<length s])" by simp
  then show "from \<le> idx" "idx < length s" "s ! idx = ch" by auto
qed

lemma setTrue_nat: "idx < length b \<Longrightarrow> setTrue b (int idx) = b[idx := True]"
  by (simp add: setTrue_def)

lemma markLoop_stemMatches:
  "length isBlack = length lower \<Longrightarrow>
   markLoop lower chs lastIdx isBlack =
     map (\<lambda>i. isBlack ! i \<or> i \<in> set (stemMatches lower chs (nat (lastIdx + 1)))) [0..<length lower]"
proof (induction chs arbitrary: lastIdx isBlack)
  case Nil
  then show ?case by (simp add: map_nth [symmetric] del: map_nth) (metis map_nth)
next
  case (Cons ch rest)
  show ?case
  proof (cases "indexOf lower ch (nat (lastIdx + 1))")
    case None
    then show ?thesis using Cons.prems by (simp) (metis map_nth)
  next
    case (Some idx)
    have idx: "idx < length lower" using indexOf_Some(2) [OF Some] .
    have st: "setTrue isBlack (int idx) = isBlack[idx := True]"
      using idx Cons.prems by (simp add: setTrue_nat)
    have "markLoop lower (ch # rest) lastIdx isBlack = markLoop lower rest (int idx) (isBlack[idx := True])"
      using Some st by simp
    also have "\<dots> = map (\<lambda>i. isBlack[idx := True] ! i \<or> i \<in> set (stemMatches lower rest (nat (int idx + 1)))) [0..<length lower]"
      using Cons.IH [of "isBlack[idx := True]" "int idx"] Cons.prems by simp
    also have "\<dots> = map (\<lambda>i. isBlack ! i \<or> i \<in> set (stemMatches lower (ch # rest) (nat (lastIdx + 1)))) [0..<length lower]"
      using Some Cons.prems idx by (auto simp: nth_list_update nat_add_distrib)
    finally show ?thesis .
  qed
qed

lemma markStemLetters_eq:
  "markStemLetters lc form stem =
     map (\<lambda>i. i \<in> set (stemMatches (map lc form) (map lc stem) 0)) [0..<length form]"
  using markLoop_stemMatches [of "replicate (length form) False" "map lc form" "map lc stem" "- 1"]
  by (simp add: markStemLetters_def)





section \<open>Claims about colorizeForm\<close>

lemma commonPrefixLen_le:
  "commonPrefixLen lc form sp \<le> length form" "commonPrefixLen lc form sp \<le> length sp"
proof -
  have "commonPrefixLen lc form sp \<le> length (zip form sp)"
    unfolding commonPrefixLen_def by (rule length_takeWhile_le)
  then show "commonPrefixLen lc form sp \<le> length form" "commonPrefixLen lc form sp \<le> length sp"
    by simp_all
qed

lemma commonPrefixLen_match:
  assumes "k < commonPrefixLen lc form sp"
  shows "lc (form ! k) = lc (sp ! k)"
proof -
  let ?P = "\<lambda>p. lc (fst p) = lc (snd p)"
  have k: "k < length (takeWhile ?P (zip form sp))" using assms by (simp add: commonPrefixLen_def)
  then have "takeWhile ?P (zip form sp) ! k \<in> set (takeWhile ?P (zip form sp))" by simp
  then have "?P (takeWhile ?P (zip form sp) ! k)" by (rule set_takeWhileD [THEN conjunct2])
  moreover have "takeWhile ?P (zip form sp) ! k = zip form sp ! k" using k by (rule takeWhile_nth)
  moreover have "k < length form" "k < length sp"
    using assms commonPrefixLen_le [of lc form sp] by simp_all
  ultimately show ?thesis by simp
qed

lemma commonPrefixLen_stop:
  assumes "commonPrefixLen lc form sp < length form" "commonPrefixLen lc form sp < length sp"
  shows "lc (form ! commonPrefixLen lc form sp) \<noteq> lc (sp ! commonPrefixLen lc form sp)"
proof -
  let ?P = "\<lambda>p. lc (fst p) = lc (snd p)"
  have "length (takeWhile ?P (zip form sp)) < length (zip form sp)"
    using assms by (simp add: commonPrefixLen_def)
  then have "\<not> ?P (zip form sp ! length (takeWhile ?P (zip form sp)))"
    by (rule nth_length_takeWhile)
  then show ?thesis using assms by (simp add: commonPrefixLen_def)
qed

lemma mergeLoop_eq:
  "length isBlack = length form \<Longrightarrow> i \<le> commonPrefixLen lc form sp \<Longrightarrow>
   mergeLoop lc form sp i isBlack =
     map (\<lambda>k. isBlack ! k \<or> (i \<le> k \<and> k < commonPrefixLen lc form sp)) [0..<length form]"
proof (induction lc form sp i isBlack rule: mergeLoop.induct)
  case (1 lc form sp i isBlack)
  let ?L = "commonPrefixLen lc form sp"
  show ?case
  proof (cases "i < length sp \<and> i < length form \<and> lc (form ! i) = lc (sp ! i)")
    case True
    have "i \<noteq> ?L"
    proof
      assume e: "i = ?L"
      have "?L < length form" "?L < length sp" using True e by simp_all
      then have "lc (form ! ?L) \<noteq> lc (sp ! ?L)" by (rule commonPrefixLen_stop)
      moreover have "lc (form ! ?L) = lc (sp ! ?L)" using True e by simp
      ultimately show False by contradiction
    qed
    then have lt: "i < ?L" using "1.prems"(2) by simp
    have st: "setTrue isBlack (int i) = isBlack[i := True]"
      using True "1.prems"(1) by (simp add: setTrue_nat)
    have "mergeLoop lc form sp i isBlack = mergeLoop lc form sp (i + 1) (isBlack[i := True])"
      using True st by (subst mergeLoop.simps) simp
    also have "\<dots> = map (\<lambda>k. isBlack[i := True] ! k \<or> (i + 1 \<le> k \<and> k < ?L)) [0..<length form]"
    proof -
      have c: "i < length sp" "i < length form \<and> lc (form ! i) = lc (sp ! i)" using True by simp_all
      have l: "length (setTrue isBlack (int i)) = length form" using st "1.prems"(1) by simp
      have "i + 1 \<le> ?L" using lt by simp
      from "1.IH" [OF c l this] show ?thesis unfolding st .
    qed
    also have "\<dots> = map (\<lambda>k. isBlack ! k \<or> (i \<le> k \<and> k < ?L)) [0..<length form]"
    proof -
      have il: "i < length isBlack" using True "1.prems"(1) by simp
      have "(isBlack[i := True] ! k \<or> (i + 1 \<le> k \<and> k < ?L)) = (isBlack ! k \<or> (i \<le> k \<and> k < ?L))" for k
        using il lt by (cases "k = i") (auto simp: nth_list_update)
      then show ?thesis by simp
    qed
    finally show ?thesis .
  next
    case False
    have "?L \<le> i"
    proof (rule ccontr)
      assume "\<not> ?L \<le> i"
      then have "i < ?L" by simp
      then have "lc (form ! i) = lc (sp ! i)" "i < length form" "i < length sp"
        using commonPrefixLen_match [of i lc form sp] commonPrefixLen_le [of lc form sp] by simp_all
      then show False using False by simp
    qed
    then have n: "\<And>k. (i \<le> k \<and> k < ?L) = False" by auto
    have "mergeLoop lc form sp i isBlack = isBlack"
      using False by (subst mergeLoop.simps) auto
    moreover have "isBlack = map (\<lambda>k. isBlack ! k) [0..<length form]"
      using "1.prems"(1) by (metis map_nth)
    ultimately show ?thesis unfolding n by simp
  qed
qed

lemma mergeSharedPrefix_eq:
  "length isBlack = length form \<Longrightarrow>
   mergeSharedPrefix lc isBlack form sp =
     map (\<lambda>k. isBlack ! k \<or> k < commonPrefixLen lc form sp) [0..<length form]"
  using mergeLoop_eq [of isBlack form 0 lc sp] by (simp add: mergeSharedPrefix_def)

lemma decode_append: "decode cur (ts @ us) = decode cur ts @ decode (openSpan cur ts) us"
  by (induction cur ts rule: decode.induct) simp_all

lemma openSpan_append: "openSpan cur (ts @ us) = openSpan (openSpan cur ts) us"
  by (induction cur ts rule: openSpan.induct) simp_all

lemma colorStep_decode:
  assumes "openSpan None (fst st) = snd st"
  shows "decode None (fst (colorStep form isBlack m k st))
           = decode None (fst st) @ [(Some (nextMode isBlack m k), form ! k)]"
    and "openSpan None (fst (colorStep form isBlack m k st)) = snd (colorStep form isBlack m k st)"
  using assms by (auto simp: colorStep_def Let_def decode_append openSpan_append)

lemma colorStep_fold:
  "decode None (fst (fold (colorStep form isBlack m) [0..<k] ([], None)))
     = map (\<lambda>i. (Some (nextMode isBlack m i), form ! i)) [0..<k] \<and>
   openSpan None (fst (fold (colorStep form isBlack m) [0..<k] ([], None)))
     = snd (fold (colorStep form isBlack m) [0..<k] ([], None))"
proof (induction k)
  case 0
  then show ?case by simp
next
  case (Suc k)
  define st where "st = fold (colorStep form isBlack m) [0..<k] ([], None)"
  have ih: "decode None (fst st) = map (\<lambda>i. (Some (nextMode isBlack m i), form ! i)) [0..<k]"
    "openSpan None (fst st) = snd st"
    using Suc unfolding st_def by simp_all
  have f: "fold (colorStep form isBlack m) [0..<Suc k] ([], None) = colorStep form isBlack m k st"
    by (simp add: st_def)
  show ?case
    unfolding f using colorStep_decode [OF ih(2), of form isBlack m k] ih(1) by simp
qed

lemma colorizeForm_decode:
  "decode None (colorizeForm lc form sharedPrefix stem irregularMask) =
     map (\<lambda>i. (Some (classOf lc form sharedPrefix stem irregularMask i), form ! i)) [0..<length form]"
proof -
  define isBlack where "isBlack = mergeSharedPrefix lc (markStemLetters lc form stem) form sharedPrefix"
  define st where "st = fold (colorStep form isBlack irregularMask) [0..<length form] ([], None)"
  have len: "length (markStemLetters lc form stem) = length form"
    by (simp add: markStemLetters_eq)
  have ib: "isBlack = map (\<lambda>k. k \<in> set (stemMatches (map lc form) (map lc stem) 0) \<or>
      k < commonPrefixLen lc form sharedPrefix) [0..<length form]"
    unfolding isBlack_def mergeSharedPrefix_eq [OF len]
    by (simp add: markStemLetters_eq)
  have nm: "nextMode isBlack irregularMask i = classOf lc form sharedPrefix stem irregularMask i"
    if "i < length form" for i
    using that by (auto simp add: nextMode_def classOf_def truthyAt_def ib split: option.splits)
  have d: "decode None (fst st) = map (\<lambda>i. (Some (nextMode isBlack irregularMask i), form ! i)) [0..<length form]"
    using colorStep_fold [of form isBlack irregularMask "length form"]
    unfolding st_def by simp
  have "decode None (colorizeForm lc form sharedPrefix stem irregularMask) = decode None (fst st)"
    unfolding colorizeForm_def isBlack_def [symmetric] Let_def st_def [symmetric]
    by (simp add: decode_append)
  then show ?thesis using d nm by simp
qed



section \<open>Claims about the variant generator\<close>

text \<open>
  C7. For \<open>appeler\<close>, present, person 0, the variants include \<open>app\<close>\<open>e\<close>-grave\<open>le\<close> and
  \<open>appelle\<close>; the stem rule for \<open>-eler\<close> gives the stem, its grave-accent form, the
  doubled stem \<open>appell\<close> and its grave-accent form; and the attested form \<open>appelle\<close>
  aligns with cost 0 against the doubling variant.
\<close>

theorem appeler_variants:
  "str ''app'' @ [e_grave] @ str ''le''
      \<in> set (expectedRegularVariants lowerLatin1 (str ''appeler'') present 0 None) \<and>
   str ''appelle'' \<in> set (expectedRegularVariants lowerLatin1 (str ''appeler'') present 0 None) \<and>
   elerEterStemVariants lowerLatin1 (str ''appel'') (str ''appeler'') present 0
     = [str ''appel'', str ''app'' @ [e_grave] @ str ''l'', str ''appell'',
        str ''app'' @ [e_grave] @ str ''ll''] \<and>
   editMask (str ''appelle'') (concatU (str ''appell'') (regularEnding (str ''appeler'') present 0))
     = Inr \<lparr>score = 0, mask = replicate 7 False\<rparr>"
  by code_simp

lemma set_dedupe_fold:
  "set (fold (\<lambda>x seen. if x \<in> set seen then seen else seen @ [x]) xs acc) = set xs \<union> set acc"
  by (induction xs arbitrary: acc) auto

lemma set_dedupe: "set (dedupe xs) = set xs"
  by (simp add: dedupe_def set_dedupe_fold)

lemma dedupe_single: "dedupe [x] = [x]"
  by (simp add: dedupe_def)

lemma form_in_cerGerVariants: "form \<in> set (cerGerVariants lc form infinitive ending)"
  by (simp add: cerGerVariants_def Let_def set_dedupe)

lemma concatU_nthU_nonempty:
  assumes "\<forall>e\<in>set tbl. e \<noteq> []"
  shows "concatU s (nthU tbl p) \<noteq> []"
  using assms by (auto simp: concatU_def nthU_def str_def)

lemma base_in_variants:
  assumes "expectedBaseForm infinitive tk p stems \<noteq> []"
  shows "expectedBaseForm infinitive tk p stems \<in> set (expectedRegularVariants lc infinitive tk p stems)"
  using assms form_in_cerGerVariants [of "expectedBaseForm infinitive tk p stems" lc infinitive "regularEnding infinitive tk p"]
  by (auto simp: expectedRegularVariants_def Let_def set_dedupe)

text \<open>
  C4, as stated: an infinitive of group \<open>Other\<close> has no variant for \<open>present\<close> and
  \<open>passe_simple\<close>. The infinitive \<open>ha\<close>\<open>i\<close>-diaeresis\<open>r\<close> ends in none of \<open>er\<close>, \<open>ir\<close>,
  \<open>re\<close>, and it has a variant for both tenses.
\<close>

theorem other_group_counterexample:
  "verbGroup (str ''ha'' @ [0xEF] @ str ''r'') = Other \<and>
   expectedRegularVariants lowerLatin1 (str ''ha'' @ [0xEF] @ str ''r'') present 0 None \<noteq> [] \<and>
   expectedRegularVariants lowerLatin1 (str ''ha'' @ [0xEF] @ str ''r'') passe_simple 0 None \<noteq> []"
  by code_simp

text \<open>
  C4, amended. For an infinitive of group \<open>Other\<close>, \<open>present\<close> and \<open>passe_simple\<close> give
  exactly one variant, the infinitive itself, and no variant only when the infinitive is the
  empty string; \<open>imparfait\<close> and \<open>futur\<close> give a non-empty list of variants, for every
  person index and every imparfait stem.
\<close>

theorem other_group_variants:
  assumes "verbGroup infinitive = Other"
  shows "(tenseKey = present \<or> tenseKey = passe_simple \<longrightarrow>
            expectedRegularVariants lc infinitive tenseKey personIndex stems
              = (if infinitive = [] then [] else [infinitive])) \<and>
         (tenseKey = imparfait \<or> tenseKey = futur \<longrightarrow>
            expectedRegularVariants lc infinitive tenseKey personIndex stems \<noteq> [])"
proof (intro conjI impI)
  assume t: "tenseKey = present \<or> tenseKey = passe_simple"
  have e: "regularEnding infinitive tenseKey personIndex = Some []"
    using t assms by (auto simp: regularEnding_def)
  have b: "expectedBaseForm infinitive tenseKey personIndex stems = infinitive"
    using t assms e by (auto simp: expectedBaseForm_def concatU_def)
  have c: "cerGerVariants lc infinitive infinitive (Some []) = [infinitive]"
    by (simp add: cerGerVariants_def Let_def dedupe_single str_def)
  show "expectedRegularVariants lc infinitive tenseKey personIndex stems
              = (if infinitive = [] then [] else [infinitive])"
    using assms by (simp add: expectedRegularVariants_def Let_def b e c dedupe_single)
next
  assume t: "tenseKey = imparfait \<or> tenseKey = futur"
  obtain tbl where e: "regularEnding infinitive tenseKey personIndex = nthU tbl personIndex"
    and tbl: "\<forall>e\<in>set tbl. e \<noteq> []"
    using t by (auto simp: regularEnding_def str_def)
  obtain base where "expectedBaseForm infinitive tenseKey personIndex stems
      = concatU base (regularEnding infinitive tenseKey personIndex)"
    using t by (auto simp: expectedBaseForm_def Let_def)
  then have "expectedBaseForm infinitive tenseKey personIndex stems \<noteq> []"
    unfolding e using concatU_nthU_nonempty [OF tbl] by simp
  from base_in_variants [OF this, of lc]
  show "expectedRegularVariants lc infinitive tenseKey personIndex stems \<noteq> []"
    by auto
qed


theorem other_group_variants_witness:
  "expectedRegularVariants lowerLatin1 (str ''ha'' @ [0xEF] @ str ''r'') present 0 None
     = [str ''ha'' @ [0xEF] @ str ''r''] \<and>
   expectedRegularVariants lowerLatin1 (str ''ha'' @ [0xEF] @ str ''r'') imparfait 0 None \<noteq> []"
proof -
  have g: "verbGroup (str ''ha'' @ [0xEF] @ str ''r'') = Other"
    by code_simp
  have ne: "str ''ha'' @ [0xEF] @ str ''r'' \<noteq> ([] :: jsstring)"
    by simp
  show ?thesis
    using other_group_variants [OF g, of present lowerLatin1 0 None]
      other_group_variants [OF g, of imparfait lowerLatin1 0 None] ne
    by simp
qed

lemma levr_up1: "levr (x # xs) ys \<le> Suc (levr xs ys)"
  by (cases ys) (simp_all add: levr_Nil2 levr.simps(3))

lemma levr_up2: "levr xs (y # ys) \<le> Suc (levr xs ys)"
  by (cases xs) (simp_all add: levr.simps(3))

lemma levr_down1: "levr xs ys \<le> Suc (levr (x # xs) ys)"
proof (induction ys arbitrary: xs x)
  case Nil
  then show ?case by (simp add: levr_Nil2)
next
  case (Cons y ys)
  have a: "levr xs (y # ys) \<le> Suc (levr xs ys + (if x = y then 0 else 1))"
    using levr_up2 [of xs y ys] by simp
  have b: "levr xs (y # ys) \<le> Suc (levr (x # xs) ys + 1)"
    using levr_up2 [of xs y ys] Cons.IH [of xs x] by simp
  show ?case
    using a b by (simp add: levr.simps(3) min_def)
qed

lemma levr_down2: "levr xs ys \<le> Suc (levr xs (y # ys))"
proof (induction xs arbitrary: ys y)
  case Nil
  then show ?case by simp
next
  case (Cons x xs)
  have a: "levr (x # xs) ys \<le> Suc (levr xs ys + (if x = y then 0 else 1))"
    using levr_up1 [of x xs ys] by simp
  have b: "levr (x # xs) ys \<le> Suc (levr xs (y # ys) + 1)"
    using levr_up1 [of x xs ys] Cons.IH [of ys y] by simp
  show ?case
    using a b by (simp add: levr.simps(3) min_def)
qed

lemma levr_same_head: "levr (z # xs) (z # ys) = levr xs ys"
  using levr_down1 [of xs ys z] levr_down2 [of xs ys z]
  by (simp add: levr.simps(3) min_def)

lemma steps_same_head: "steps (z # xs) (z # ys) = Eq # steps xs ys"
  by (simp add: steps.simps(4) levr_same_head)

lemma steps_common: "steps (zs @ xs) (zs @ ys) = replicate (length zs) Eq @ steps xs ys"
  by (induction zs) (simp_all add: steps_same_head)

lemma stepsMask_append_Eq:
  "stepsMask (replicate n Eq @ ops) = stepsMask ops @ replicate n False"
  by (simp add: stepsMask_def)

lemma mask_common_suffix:
  "stepsMask (steps (rev (X @ E)) (rev (S @ E)))
     = stepsMask (steps (rev X) (rev S)) @ replicate (length E) False"
  by (simp add: steps_common stepsMask_append_Eq)

lemma replaceBefore_id: "x \<notin> set s \<Longrightarrow> replaceBefore x rep s = s"
  by (induction x rep s rule: replaceBefore.induct) simp_all

lemma replaceBefore_suffix:
  "x \<notin> set E \<Longrightarrow> \<exists>X'. replaceBefore x rep (X @ E) = X' @ E"
proof (induction X)
  case Nil
  then show ?case by (simp add: replaceBefore_id)
next
  case (Cons c X)
  then obtain X' where X': "replaceBefore x rep (X @ E) = X' @ E" by auto
  show ?case
  proof (cases "X @ E")
    case Nil
    then show ?thesis by simp
  next
    case (Cons d r)
    have "replaceBefore x rep ((c # X) @ E)
        = (if c = x \<and> d \<in> set (str ''a'' @ [a_circ] @ str ''o'') then rep else [c]) @ X' @ E"
      using Cons X' by simp
    then show ?thesis by (metis append.assoc)
  qed
qed

lemma nthU_Some: "nthU tbl p = Some e \<Longrightarrow> e \<in> set tbl"
  by (auto simp: nthU_def split: if_splits)

lemma ending_no_c_g:
  assumes "regularEnding infinitive tenseKey personIndex = Some e"
  shows "of_char CHR ''c'' \<notin> set e \<and> of_char CHR ''g'' \<notin> set e"
  using assms
  by (cases tenseKey)
     (auto simp: regularEnding_def Let_def str_def split: if_splits dest!: nthU_Some)


lemma cerGerVariants_cases:
  assumes "v \<in> set (cerGerVariants lc form infinitive ending)"
  shows "v = form \<or> v = replaceBefore (of_char CHR ''c'') [c_cedilla] form
           \<or> v = replaceBefore (of_char CHR ''g'') (str ''ge'') form"
  using assms by (auto simp: cerGerVariants_def Let_def set_dedupe split: if_splits)

lemma base_suffix:
  assumes "regularEnding infinitive tenseKey personIndex = Some E"
  shows "\<exists>B. expectedBaseForm infinitive tenseKey personIndex stems = B @ E"
  using assms
  by (cases tenseKey) (auto simp: expectedBaseForm_def Let_def concatU_def regularEnding_def)

lemma variants_suffix:
  assumes e: "regularEnding infinitive tenseKey personIndex = Some E"
    and v: "v \<in> set (expectedRegularVariants lc infinitive tenseKey personIndex stems)"
  shows "\<exists>X. v = X @ E"
proof -
  obtain B where B: "expectedBaseForm infinitive tenseKey personIndex stems = B @ E"
    using base_suffix [OF e] by blast
  let ?cg = "cerGerVariants lc (B @ E) infinitive (Some E)"
  have cg: "\<exists>X. w = X @ E" if "w \<in> set ?cg" for w
    using cerGerVariants_cases [OF that] ending_no_c_g [OF e]
      replaceBefore_suffix [of "of_char CHR ''c''" E "[c_cedilla]" B]
      replaceBefore_suffix [of "of_char CHR ''g''" E "str ''ge''" B]
    by auto
  from v have "v \<in> set ?cg \<or> (tenseKey = present \<and> (\<exists>st3. v = concatU st3 (regularEnding infinitive present personIndex)))"
    unfolding expectedRegularVariants_def Let_def B e
    by (auto simp: set_dedupe split: if_splits)
  then show ?thesis
  proof
    assume "v \<in> set ?cg"
    then show ?thesis by (rule cg)
  next
    assume "tenseKey = present \<and> (\<exists>st3. v = concatU st3 (regularEnding infinitive present personIndex))"
    then show ?thesis using e by (auto simp: concatU_def)
  qed
qed

lemma bestExpectedMask_cases:
  "bestExpectedMask a vs = Inr None \<or>
   (\<exists>v\<in>set vs. bestExpectedMask a vs = Inr (Some (stepsMask (steps (rev v) (rev a)))))"
proof (cases "vs = []")
  case True
  then show ?thesis by (simp add: bestExpectedMask_def)
next
  case False
  from bestLoop_min [of a vs None \<infinity> 0]
  obtain res k' where r: "bestLoop a vs None \<infinity> 0 = Inr (res, k')"
    and d: "res = None \<or> (\<exists>i<length vs. res = Some (stepsMask (steps (rev (vs ! i)) (rev a))))"
    by blast
  have b: "bestExpectedMask a vs = Inr res"
    using False r by (simp add: bestExpectedMask_def)
  from d show ?thesis
  proof
    assume "res = None"
    then show ?thesis using b by simp
  next
    assume "\<exists>i<length vs. res = Some (stepsMask (steps (rev (vs ! i)) (rev a)))"
    then obtain i where "i < length vs" "res = Some (stepsMask (steps (rev (vs ! i)) (rev a)))"
      by blast
    then show ?thesis using b nth_mem [of i vs] by auto
  qed
qed

lemma indexOf_here: "k < length s \<Longrightarrow> s ! k = ch \<Longrightarrow> indexOf s ch k = Some k"
  by (simp add: indexOf_def upt_conv_Cons)

lemma stemMatches_prefix:
  "stemMatches (pre @ chs @ post) chs (length pre) = [length pre..<length pre + length chs]"
proof (induction chs arbitrary: pre)
  case Nil
  then show ?case by simp
next
  case (Cons c rest)
  have i: "indexOf (pre @ (c # rest) @ post) c (length pre) = Some (length pre)"
    by (rule indexOf_here) simp_all
  have "stemMatches ((pre @ [c]) @ rest @ post) rest (length (pre @ [c]))
      = [length (pre @ [c])..<length (pre @ [c]) + length rest]"
    by (rule Cons.IH)
  then have "stemMatches (pre @ (c # rest) @ post) rest (Suc (length pre))
      = [Suc (length pre)..<Suc (length pre) + length rest]"
    by (simp del: upt_Suc)
  then show ?case using i by (simp add: upt_conv_Cons del: upt_Suc)
qed

lemma stemMatches_own_stem:
  "stemMatches (map lc (S @ E)) (map lc S) 0 = [0..<length S]"
  using stemMatches_prefix [of "[]" "map lc S" "map lc E"] by simp


lemma regular_form_mask:
  assumes e: "regularEnding infinitive tenseKey personIndex = Some E"
  shows "\<exists>irregularMask.
           bestExpectedMask (S @ E) (expectedRegularVariants lc infinitive tenseKey personIndex stems)
             = Inr irregularMask \<and>
           (\<forall>i. classOf lc (S @ E) sharedPrefix S irregularMask i \<noteq> Hi)"
proof -
  let ?vs = "expectedRegularVariants lc infinitive tenseKey personIndex stems"
  from bestExpectedMask_cases [of "S @ E" ?vs]
  show ?thesis
  proof
    assume n: "bestExpectedMask (S @ E) ?vs = Inr None"
    have "\<forall>i. classOf lc (S @ E) sharedPrefix S None i \<noteq> Hi"
      by (simp add: classOf_def)
    then show ?thesis using n by blast
  next
    assume "\<exists>v\<in>set ?vs. bestExpectedMask (S @ E) ?vs = Inr (Some (stepsMask (steps (rev v) (rev (S @ E)))))"
    then obtain v where v: "v \<in> set ?vs"
      and b: "bestExpectedMask (S @ E) ?vs = Inr (Some (stepsMask (steps (rev v) (rev (S @ E)))))"
      by blast
    obtain X where X: "v = X @ E" using variants_suffix [OF e v] by blast
    define M where "M = stepsMask (steps (rev X) (rev S))"
    have m: "stepsMask (steps (rev v) (rev (S @ E))) = M @ replicate (length E) False"
      unfolding X M_def by (rule mask_common_suffix)
    have lM: "length M = length S" by (simp add: M_def length_stepsMask)
    have "classOf lc (S @ E) sharedPrefix S (Some (M @ replicate (length E) False)) i \<noteq> Hi" for i
    proof (cases "i < length S")
      case True
      then have "i \<in> set (stemMatches (map lc (S @ E)) (map lc S) 0)"
        unfolding stemMatches_own_stem by simp
      then show ?thesis by (simp add: classOf_def)
    next
      case False
      then have "\<not> (i < length (M @ replicate (length E) False) \<and> (M @ replicate (length E) False) ! i)"
        using lM by (auto simp: nth_append)
      then show ?thesis by (auto simp add: classOf_def)
    qed
    then show ?thesis using b m by auto
  qed
qed

text \<open>
  C8. Take an infinitive of a recognized group, written in plain text (no surrogate pair,
  unit-wise lower case: the text on which \<open>markStemLetters\<close> is the source), a tense key
  among the four and a person with a table ending, and the attested form that is the
  linguistic stem followed by that ending. Then \<open>bestExpectedMask\<close> returns for it,
  against the generated variants, a mask (or \<open>null\<close>), and with that mask the output of
  \<open>colorizeForm\<close> holds exactly the characters of the form, each once and in order, every
  one of them in a \<open>Black\<close> (stem) or a \<open>Normal\<close> span and none in a \<open>Hi\<close> (irregular)
  span, for every shared prefix and every imparfait stem.
\<close>

theorem regular_form_never_irregular:
  assumes "verbGroup infinitive \<noteq> Other"
    and "tenseKey \<noteq> unknown_tense"
    and "regularEnding infinitive tenseKey personIndex = Some ending"
    and "form = linguisticStem infinitive @ ending"
    and "plainText infinitive"
  shows "\<exists>irregularMask.
           bestExpectedMask form (expectedRegularVariants lc infinitive tenseKey personIndex stems)
             = Inr irregularMask \<and>
           map snd (decode None
               (colorizeForm lc form sharedPrefix (linguisticStem infinitive) irregularMask))
             = form \<and>
           (\<forall>p\<in>set (decode None
                  (colorizeForm lc form sharedPrefix (linguisticStem infinitive) irregularMask)).
               fst p = Some Black \<or> fst p = Some Normal) \<and>
           (\<forall>i<length form.
               classOf lc form sharedPrefix (linguisticStem infinitive) irregularMask i \<noteq> Hi)"
proof -
  let ?S = "linguisticStem infinitive"
  from regular_form_mask [OF assms(3), of ?S lc stems sharedPrefix]
  obtain irregularMask where b: "bestExpectedMask (?S @ ending)
        (expectedRegularVariants lc infinitive tenseKey personIndex stems) = Inr irregularMask"
    and c: "\<forall>i. classOf lc (?S @ ending) sharedPrefix ?S irregularMask i \<noteq> Hi"
    by blast
  let ?out = "decode None (colorizeForm lc (?S @ ending) sharedPrefix ?S irregularMask)"
  have d: "?out = map (\<lambda>i. (Some (classOf lc (?S @ ending) sharedPrefix ?S irregularMask i),
                (?S @ ending) ! i)) [0..<length (?S @ ending)]"
    by (rule colorizeForm_decode)
  have "map snd ?out = map (\<lambda>i. (?S @ ending) ! i) [0..<length (?S @ ending)]"
    unfolding d by simp
  then have chars: "map snd ?out = ?S @ ending"
    by (simp only: map_nth)
  have modes: "fst p = Some Black \<or> fst p = Some Normal" if "p \<in> set ?out" for p
  proof -
    from that obtain i where "fst p = Some (classOf lc (?S @ ending) sharedPrefix ?S irregularMask i)"
      unfolding d by auto
    then show ?thesis
      using c by (cases "classOf lc (?S @ ending) sharedPrefix ?S irregularMask i") auto
  qed
  show ?thesis
    unfolding assms(4) using b chars modes c by blast
qed

theorem regular_form_never_irregular_witness:
  "bestExpectedMask (str ''boiais'')
       (expectedRegularVariants lowerLatin1 (str ''boire'') imparfait 0 (Some (str ''buv'')))
     = Inr (Some [False, True, True, False, False, False]) \<and>
   map snd (decode None (colorizeForm lowerLatin1 (str ''boiais'') (str ''b'')
         (linguisticStem (str ''boire'')) (Some [False, True, True, False, False, False])))
     = str ''boiais'' \<and>
   list_all (\<lambda>p. fst p = Some Black \<or> fst p = Some Normal)
     (decode None (colorizeForm lowerLatin1 (str ''boiais'') (str ''b'')
         (linguisticStem (str ''boire'')) (Some [False, True, True, False, False, False])))"
proof -
  have g: "verbGroup (str ''boire'') \<noteq> Other" by code_simp
  have t: "imparfait \<noteq> unknown_tense" by simp
  have e: "regularEnding (str ''boire'') imparfait 0 = Some (str ''ais'')" by code_simp
  have f: "str ''boiais'' = linguisticStem (str ''boire'') @ str ''ais''" by code_simp
  have p: "plainText (str ''boire'')" by (simp add: plainText_def str_def)
  have b: "bestExpectedMask (str ''boiais'')
       (expectedRegularVariants lowerLatin1 (str ''boire'') imparfait 0 (Some (str ''buv'')))
     = Inr (Some [False, True, True, False, False, False])"
    by code_simp
  show ?thesis
    using regular_form_never_irregular [OF g t e f p, of lowerLatin1 "Some (str ''buv'')" "str ''b''"] b
    by (simp add: list_all_iff)
qed

end
